theory Spec2Isabelle
  imports Main "HOL-Library.Word"
begin

section \<open>Data model\<close>

text \<open>
  Go's \<^verbatim>\<open>string\<close> and \<^verbatim>\<open>[]byte\<close> are byte sequences; a HOL \<^typ>\<open>char\<close> is one
  byte, so both are \<^typ>\<open>string\<close>. Inodes are \<^verbatim>\<open>uint64\<close>, peer ids are used as
  \<^verbatim>\<open>uint32\<close> map keys. \<^verbatim>\<open>clock.Epoch\<close> is declared in \<^verbatim>\<open>fs/clock\<close>, which is not
  among the sources; the spec calls it an unsigned tick, and it is taken here as Go's
  \<^verbatim>\<open>uint64\<close>, so that \<open>+ 1\<close> wraps at \<open>2 ^ 64\<close>.
\<close>

type_synonym bytes = string
type_synonym inode = "64 word"
type_synonym Epoch = "64 word"
type_synonym peer_ID = "32 word"

datatype error =
    ErrVolNameInvalid
  | ErrVolNameNotFound
  | ErrVolNameExist
  | ErrVolumeIDNotFound
  | ErrBucketExists
  | ErrUnknownDirent
  | ErrExt string

text \<open>
  The first four are the error values that \<^verbatim>\<open>db/volume.go\<close> declares.
  \<open>ErrBucketExists\<close> is \<^verbatim>\<open>bolt.ErrBucketExists\<close>, which \<^verbatim>\<open>Create\<close> compares against.
  \<open>ErrUnknownDirent\<close> is the \<^verbatim>\<open>fmt.Errorf("unknown dirent type: %v", tmp)\<close> of
  \<^verbatim>\<open>SyncSend\<close>; \<open>ErrExt\<close> stands for every error value that comes from a collaborator
  (the bolt store, the directory and clock buckets, the random source, the sink).
\<close>

subsection \<open>Wire messages\<close>

text \<open>
  \<^verbatim>\<open>wire.Dirent\<close> (the stored directory entry) and \<^verbatim>\<open>wirepeer.Dirent\<close>,
  \<^verbatim>\<open>wirepeer.VolumeSyncPullItem\<close> (the protocol message) are generated protobuf types,
  not among the sources. Their fields are taken from the way \<^verbatim>\<open>fs.go\<close> uses them; a nil
  pointer or nil map is \<open>None\<close>. The manifest is passed through as opaque bytes.
\<close>

record wire_File =
  Manifest :: bytes

record Dirent =
  Inode :: inode
  File :: "wire_File option"
  Dir :: "unit option"

record wirepeer_Dirent =
  wp_Name :: string
  wp_File :: "wire_File option"
  wp_Dir :: "unit option"
  wp_Clock :: bytes

datatype pull_error = NOT_A_DIRECTORY

record VolumeSyncPullItem =
  Peers :: "(peer_ID \<rightharpoonup> bytes) option"
  Children :: "wirepeer_Dirent list"
  Error :: "pull_error option"

text \<open>The zero message, which is also what \<^verbatim>\<open>msg.Reset()\<close> leaves behind.\<close>

definition Reset :: VolumeSyncPullItem where
  "Reset = \<lparr>Peers = None, Children = [], Error = None\<rparr>"

subsection \<open>The database, as the volume sees it\<close>

text \<open>
  The packages behind \<^verbatim>\<open>db.DB\<close>, \<^verbatim>\<open>db.Tx\<close>, \<^verbatim>\<open>bucket.Dirs()\<close>, \<^verbatim>\<open>bucket.Clock()\<close>
  and \<^verbatim>\<open>tx.Peers()\<close> are not among the sources. The model takes what they answer as
  given: a \<open>DB\<close> holds the persisted epoch of the volume and, for each read that
  \<^verbatim>\<open>SyncSend\<close> makes, the answer of the store. Cursors run over finite buckets, so a
  cursor is the list of the items it yields, in the order it yields them (key order).
  \<^verbatim>\<open>Open\<close>'s caller guarantees that the volume's bucket exists, so \<^verbatim>\<open>v.bucket(tx)\<close>
  is never nil and needs no branch.
\<close>

datatype Clock = Clock (MarshalBinary: "error + bytes")

record DirsItem =
  item_Name :: string
  item_Unmarshal :: "error + Dirent"

record Peer =
  peer_ID :: peer_ID
  peer_Pub :: bytes
  IsAllowed :: bool

record DB =
  Epoch :: Epoch
  Dirs_Get :: "inode \<Rightarrow> string \<Rightarrow> error + Dirent"
  Dirs_List :: "inode \<Rightarrow> DirsItem list"
  Clock_Get :: "inode \<Rightarrow> string \<Rightarrow> error + Clock"
  tx_Peers :: "Peer list"

text \<open>
  How the store behaves during one transaction: it may refuse to begin it, the epoch
  read or write inside may fail, or the end (commit of a write transaction, release of a
  read transaction) may fail.
\<close>

datatype fault = NoFault | BeginFails error | OpFails error | EndFails error

subsection \<open>The volume and the observable events\<close>

record Volume =
  pubKey :: bytes
  root_inode :: inode
  ticks :: Epoch
  dirty :: bool

datatype event =
    MuLock | MuUnlock
  | TxUpdate | TxCommit | TxRollback
  | TxView | TxClose
  | Send VolumeSyncPullItem

text \<open>
  A \<open>sys\<close> is the \<^verbatim>\<open>*Volume\<close> object together with the database it points to
  (\<^verbatim>\<open>v.db\<close>) and the log of what it has done so far: operations on the epoch mutex,
  transactions begun and ended, and messages handed to the sink.
\<close>

record sys =
  volume :: Volume
  store :: DB
  events :: "event list"

definition log :: "event \<Rightarrow> sys \<Rightarrow> sys" where
  "log e s = s\<lparr>events := events s @ [e]\<rparr>"

section \<open>Transactions\<close>

text \<open>
  Modelled from the spec: \<^verbatim>\<open>db.Update\<close> and \<^verbatim>\<open>db.View\<close> are not among the sources.
  A transaction runs the closure it is given; a write transaction commits atomically,
  so when the closure or the commit fails the persisted state is the one from before,
  while what the closure did to the in-memory volume and to its captured locals \<open>l\<close>
  stays done.
\<close>

definition db_Update ::
  "fault \<Rightarrow> ('l \<Rightarrow> sys \<Rightarrow> (error + unit) \<times> 'l \<times> sys) \<Rightarrow> 'l \<Rightarrow> sys \<Rightarrow> (error + unit) \<times> 'l \<times> sys" where
  "db_Update f fn l s =
     (case f of
        BeginFails e \<Rightarrow> (Inl e, l, s)
      | _ \<Rightarrow>
        (case fn l (log TxUpdate s) of
           (Inl e, l', s') \<Rightarrow> (Inl e, l', log TxRollback (s'\<lparr>store := store s\<rparr>))
         | (Inr u, l', s') \<Rightarrow>
             (case f of
                EndFails e \<Rightarrow> (Inl e, l', log TxRollback (s'\<lparr>store := store s\<rparr>))
              | _ \<Rightarrow> (Inr (), l', log TxCommit s'))))"

definition db_View ::
  "fault \<Rightarrow> ('l \<Rightarrow> sys \<Rightarrow> (error + unit) \<times> 'l \<times> sys) \<Rightarrow> 'l \<Rightarrow> sys \<Rightarrow> (error + unit) \<times> 'l \<times> sys" where
  "db_View f fn l s =
     (case f of
        BeginFails e \<Rightarrow> (Inl e, l, s)
      | _ \<Rightarrow>
        (case fn l (log TxView s) of
           (Inl e, l', s') \<Rightarrow> (Inl e, l', log TxClose s')
         | (Inr u, l', s') \<Rightarrow>
             (case f of
                EndFails e \<Rightarrow> (Inl e, l', log TxClose s')
              | _ \<Rightarrow> (Inr (), l', log TxClose s'))))"

text \<open>
  Modelled from the spec: \<^verbatim>\<open>db.Volume.Epoch\<close> and \<^verbatim>\<open>db.Volume.NextEpoch\<close> are not among
  the sources. \<open>Epoch\<close> reads the persisted tick; \<open>NextEpoch\<close> advances the persisted
  tick by exactly one and returns the new value.
\<close>

definition db_Epoch :: "fault \<Rightarrow> DB \<Rightarrow> error + Epoch" where
  "db_Epoch f vb = (case f of OpFails e \<Rightarrow> Inl e | _ \<Rightarrow> Inr (Epoch vb))"

definition NextEpoch :: "fault \<Rightarrow> DB \<Rightarrow> (error + Epoch) \<times> DB" where
  "NextEpoch f vb =
     (case f of
        OpFails e \<Rightarrow> (Inl e, vb)
      | _ \<Rightarrow> (Inr (Epoch vb + 1), vb\<lparr>Epoch := Epoch vb + 1\<rparr>))"

section \<open>The epoch clock (fs.go)\<close>

text \<open>Modelled from the spec: \<^verbatim>\<open>tokens.InodeRoot\<close>, a well-known constant.\<close>

definition InodeRoot :: inode where
  "InodeRoot = 1"

definition initFromDB :: "fault \<Rightarrow> unit \<Rightarrow> sys \<Rightarrow> (error + unit) \<times> unit \<times> sys" where
  "initFromDB f l s =
     (case db_Epoch f (store s) of
        Inl err \<Rightarrow> (Inl err, l, s)
      | Inr epoch \<Rightarrow> (Inr (), l, s\<lparr>volume := (volume s)\<lparr>ticks := epoch\<rparr>\<rparr>))"

definition Open :: "fault \<Rightarrow> DB \<Rightarrow> bytes \<Rightarrow> error + sys" where
  "Open f db pk =
     (let fs = \<lparr>pubKey = pk, root_inode = InodeRoot, ticks = 0, dirty = True\<rparr> in
      case db_View f (initFromDB f) () \<lparr>volume = fs, store = db, events = []\<rparr> of
        (Inl err, _, _) \<Rightarrow> Inl err
      | (Inr _, _, s) \<Rightarrow> Inr s)"

definition nextEpoch :: "fault \<Rightarrow> unit \<Rightarrow> sys \<Rightarrow> (error + unit) \<times> unit \<times> sys" where
  "nextEpoch f l s =
     (if \<not> dirty (volume s) then (Inr (), l, s)
      else
        (case NextEpoch f (store s) of
           (Inl err, vb) \<Rightarrow> (Inl err, l, s\<lparr>store := vb\<rparr>)
         | (Inr n, vb) \<Rightarrow>
             (Inr (), l, s\<lparr>store := vb, volume := (volume s)\<lparr>ticks := n, dirty := False\<rparr>\<rparr>)))"

definition dirtyEpoch :: "sys \<Rightarrow> Epoch \<times> sys" where
  "dirtyEpoch s =
     (let s1 = log MuLock s;
          s2 = s1\<lparr>volume := (volume s1)\<lparr>dirty := True\<rparr>\<rparr>
      in (ticks (volume s2), log MuUnlock s2))"

definition cleanEpoch :: "fault \<Rightarrow> sys \<Rightarrow> (error + Epoch) \<times> sys" where
  "cleanEpoch f s =
     (if \<not> dirty (volume s) then (Inr (ticks (volume s)), s)
      else
        (case db_Update f (nextEpoch f) () s of
           (Inl err, _, s') \<Rightarrow> (Inl err, s')
         | (Inr _, _, s') \<Rightarrow> (Inr (ticks (volume s')), s')))"

subsection \<open>Sequences of MarkDirty and SealEpoch calls\<close>

datatype op = MarkDirty | SealEpoch fault

datatype ret = Marked Epoch | Sealed "error + Epoch"

fun step :: "op \<Rightarrow> sys \<Rightarrow> ret \<times> sys" where
  "step MarkDirty s = (case dirtyEpoch s of (t, s') \<Rightarrow> (Marked t, s'))"
| "step (SealEpoch f) s = (case cleanEpoch f s of (r, s') \<Rightarrow> (Sealed r, s'))"

text \<open>\<open>run\<close> gives, for each call in turn, what it returned and the state it left.\<close>

fun run :: "op list \<Rightarrow> sys \<Rightarrow> (ret \<times> sys) list" where
  "run [] s = []"
| "run (c # cs) s = (case step c s of (r, s') \<Rightarrow> (r, s') # run cs s')"

fun sealed_ticks :: "(ret \<times> sys) list \<Rightarrow> Epoch list" where
  "sealed_ticks [] = []"
| "sealed_ticks ((Sealed (Inr t), s) # rs) = t # sealed_ticks rs"
| "sealed_ticks (_ # rs) = sealed_ticks rs"

definition persisted :: "(ret \<times> sys) list \<Rightarrow> Epoch list" where
  "persisted rs = map (\<lambda>(r, s). Epoch (store s)) rs"

definition updates :: "sys \<Rightarrow> nat" where
  "updates s = length (filter (\<lambda>e. e = TxUpdate) (events s))"

text \<open>
  The cached tick is the persisted one, or one ahead of it (after a write transaction
  whose closure ran and whose commit failed).
\<close>

definition near :: "sys \<Rightarrow> bool" where
  "near s \<longleftrightarrow>
     ticks (volume s) = Epoch (store s) \<or> ticks (volume s) = Epoch (store s) + 1"

section \<open>SyncSend (fs.go)\<close>

subsection \<open>Paths\<close>

text \<open>
  \<^verbatim>\<open>strings.IndexByte\<close> of the Go standard library: the index of the first occurrence of
  the byte, or \<open>-1\<close>.
\<close>

fun IndexByte :: "string \<Rightarrow> char \<Rightarrow> int" where
  "IndexByte [] c = - 1"
| "IndexByte (x # xs) c =
     (if x = c then 0
      else (let i = IndexByte xs c in if i = - 1 then - 1 else i + 1))"

definition splitPath :: "string \<Rightarrow> string \<times> string" where
  "splitPath p =
     (let idx = IndexByte p CHR ''/'' in
      if idx = - 1 then (p, [])
      else (take (nat idx) p, drop (nat (idx + 1)) p))"

text \<open>
  \<^verbatim>\<open>path.Clean\<close> of the Go standard library, from its documented rules: the path is cut
  at slashes; empty elements and \<open>.\<close> are dropped; \<open>..\<close> removes the element before it,
  is dropped at the root of a rooted path, and is kept at the start of a relative one;
  an empty result is \<open>.\<close>.
\<close>

fun split_slash :: "string \<Rightarrow> string list" where
  "split_slash [] = [[]]"
| "split_slash (c # cs) =
     (if c = CHR ''/'' then [] # split_slash cs
      else (case split_slash cs of [] \<Rightarrow> [[c]] | w # ws \<Rightarrow> (c # w) # ws))"

fun clean_elems :: "bool \<Rightarrow> string list \<Rightarrow> string list \<Rightarrow> string list" where
  "clean_elems rooted out [] = out"
| "clean_elems rooted out (e # es) =
     (if e = [] \<or> e = ''.'' then clean_elems rooted out es
      else if e = ''..'' then
        (if out \<noteq> [] \<and> last out \<noteq> ''..'' then clean_elems rooted (butlast out) es
         else if rooted then clean_elems rooted out es
         else clean_elems rooted (out @ [''..'']) es)
      else clean_elems rooted (out @ [e]) es)"

fun join_slash :: "string list \<Rightarrow> string" where
  "join_slash [] = []"
| "join_slash [e] = e"
| "join_slash (e # es) = e @ CHR ''/'' # join_slash es"

definition path_Clean :: "string \<Rightarrow> string" where
  "path_Clean p =
     (if p = [] then ''.''
      else
        (let rooted = (hd p = CHR ''/'');
             out = clean_elems rooted [] (split_slash p);
             r = (if rooted then ''/'' else []) @ join_slash out
         in if r = [] then ''.'' else r))"

subsection \<open>Resolving the path\<close>

text \<open>
  The loop \<^verbatim>\<open>for dirPath != ""\<close>: it returns the inode it ends at and the last entry it
  went through (\<open>None\<close> when the path is the root), or the error of the lookup that
  failed.
\<close>

function walk :: "DB \<Rightarrow> inode \<Rightarrow> Dirent option \<Rightarrow> string \<Rightarrow> error + (inode \<times> Dirent option)" where
  "walk tx dirInode dirDE dirPath =
     (if dirPath \<noteq> [] then
        (let seg = fst (splitPath dirPath); rest = snd (splitPath dirPath) in
         case Dirs_Get tx dirInode seg of
           Inl err \<Rightarrow> Inl err
         | Inr de \<Rightarrow> walk tx (Inode de) (Some de) rest)
      else Inr (dirInode, dirDE))"
  by pat_completeness auto

text \<open>Each round of the loop leaves a shorter path, so the loop ends.\<close>

lemma IndexByte_bounds:
  "IndexByte p c = - 1 \<or> (0 \<le> IndexByte p c \<and> IndexByte p c < int (length p))"
  by (induction p) (auto simp: Let_def)

lemma splitPath_shorter: "p \<noteq> [] \<Longrightarrow> length (snd (splitPath p)) < length p"
  using IndexByte_bounds [of p "CHR ''/''"]
  by (auto simp: splitPath_def Let_def)

termination walk
  by (relation "measure (\<lambda>(tx, i, d, p). length p)") (auto simp: splitPath_shorter)

declare walk.simps [simp del]

subsection \<open>The roster and the children\<close>

fun roster :: "Peer list \<Rightarrow> (peer_ID \<rightharpoonup> bytes) \<Rightarrow> (peer_ID \<rightharpoonup> bytes)" where
  "roster [] m = m"
| "roster (peer # ps) m =
     (if \<not> IsAllowed peer then roster ps m
      else roster ps (m(peer_ID peer \<mapsto> peer_Pub peer)))"

definition maxBatch :: nat where
  "maxBatch = 1000"

text \<open>One round of the loop over the children, up to the \<^verbatim>\<open>append\<close>.\<close>

definition make_child :: "DB \<Rightarrow> inode \<Rightarrow> DirsItem \<Rightarrow> error + wirepeer_Dirent" where
  "make_child tx dirInode item =
     (let name = item_Name item in
      case item_Unmarshal item of
        Inl err \<Rightarrow> Inl err
      | Inr tmp \<Rightarrow>
        (let de = \<lparr>wp_Name = name, wp_File = None, wp_Dir = None, wp_Clock = []\<rparr> in
         case (case File tmp of
                 Some f \<Rightarrow> Inr (de\<lparr>wp_File := Some \<lparr>Manifest = Manifest f\<rparr>\<rparr>)
               | None \<Rightarrow>
                 (case Dir tmp of
                    Some d \<Rightarrow> Inr (de\<lparr>wp_Dir := Some ()\<rparr>)
                  | None \<Rightarrow> Inl ErrUnknownDirent)) of
           Inl err \<Rightarrow> Inl err
         | Inr de \<Rightarrow>
           (case Clock_Get tx dirInode name of
              Inl err \<Rightarrow> Inl err
            | Inr clock \<Rightarrow>
              (case MarshalBinary clock of
                 Inl err \<Rightarrow> Inl err
               | Inr clockBuf \<Rightarrow> Inr (de\<lparr>wp_Clock := clockBuf\<rparr>)))))"

text \<open>
  The sink is the caller's callback. Its answer may depend on what it was given before,
  so it takes the messages of this call delivered so far and the message at hand.
\<close>

type_synonym sink = "VolumeSyncPullItem list \<Rightarrow> VolumeSyncPullItem \<Rightarrow> error + unit"

text \<open>
  The loop over the cursor \<^verbatim>\<open>dirs.List(dirInode)\<close>. It carries the message being filled
  and the messages sent so far, and returns the message left to flush.
\<close>

fun children :: "DB \<Rightarrow> sink \<Rightarrow> inode \<Rightarrow> DirsItem list \<Rightarrow> VolumeSyncPullItem \<Rightarrow>
    VolumeSyncPullItem list \<Rightarrow> (error + VolumeSyncPullItem) \<times> VolumeSyncPullItem list" where
  "children tx send dirInode [] msg sent = (Inr msg, sent)"
| "children tx send dirInode (item # items) msg sent =
     (case make_child tx dirInode item of
        Inl err \<Rightarrow> (Inl err, sent)
      | Inr de \<Rightarrow>
        (let msg = msg\<lparr>Children := Children msg @ [de]\<rparr> in
         if length (Children msg) > maxBatch then
           (case send sent msg of
              Inl err \<Rightarrow> (Inl err, sent @ [msg])
            | Inr _ \<Rightarrow> children tx send dirInode items Reset (sent @ [msg]))
         else children tx send dirInode items msg sent))"

text \<open>
  The body of the closure \<^verbatim>\<open>sync\<close> after the unlock: what it returns and the messages it
  handed to the sink, in order.
\<close>

definition sync_body :: "DB \<Rightarrow> sink \<Rightarrow> Volume \<Rightarrow> string \<Rightarrow> (error + unit) \<times> VolumeSyncPullItem list" where
  "sync_body tx send v dirPath =
     (case walk tx (root_inode v) None dirPath of
        Inl err \<Rightarrow> (Inl err, [])
      | Inr (dirInode, dirDE) \<Rightarrow>
        (if dirDE \<noteq> None \<and> Dir (the dirDE) = None then
           (let msg = \<lparr>Peers = None, Children = [], Error = Some NOT_A_DIRECTORY\<rparr> in
            case send [] msg of
              Inl err \<Rightarrow> (Inl err, [msg])
            | Inr _ \<Rightarrow> (Inr (), [msg]))
         else
           (let msg = \<lparr>Peers = Some (roster (tx_Peers tx) [0 \<mapsto> pubKey v]),
                       Children = [], Error = None\<rparr> in
            case children tx send dirInode (Dirs_List tx dirInode) msg [] of
              (Inl err, sent) \<Rightarrow> (Inl err, sent)
            | (Inr msg, sent) \<Rightarrow>
              (if length (Children msg) > 0 \<or> Peers msg \<noteq> None then
                 (case send sent msg of
                    Inl err \<Rightarrow> (Inl err, sent @ [msg])
                  | Inr _ \<Rightarrow> (Inr (), sent @ [msg]))
               else (Inr (), sent)))))"

text \<open>
  The closure \<^verbatim>\<open>sync\<close>. Its captured local is \<^verbatim>\<open>locked\<close>; the first thing it does, with
  the read transaction already open, is to release the mutex.
\<close>

definition sync :: "sink \<Rightarrow> string \<Rightarrow> bool \<Rightarrow> sys \<Rightarrow> (error + unit) \<times> bool \<times> sys" where
  "sync send dirPath locked s =
     (let s1 = log MuUnlock s;
          locked = False
      in case sync_body (store s1) send (volume s1) dirPath of
           (r, sent) \<Rightarrow> (r, locked, s1\<lparr>events := events s1 @ map Send sent\<rparr>))"

text \<open>The deferred function of \<^verbatim>\<open>SyncSend\<close>.\<close>

definition deferred :: "bool \<Rightarrow> sys \<Rightarrow> sys" where
  "deferred locked s = (if locked then log MuUnlock s else s)"

text \<open>
  \<open>fu\<close> is the behaviour of the store during the write transaction of \<open>cleanEpoch\<close>,
  \<open>fv\<close> during the read transaction.
\<close>

definition SyncSend :: "fault \<Rightarrow> fault \<Rightarrow> sink \<Rightarrow> string \<Rightarrow> sys \<Rightarrow> (error + unit) \<times> sys" where
  "SyncSend fu fv send dirPath s =
     (let dirPath = drop 1 (path_Clean (CHR ''/'' # dirPath));
          s1 = log MuLock s;
          locked = True
      in case cleanEpoch fu s1 of
           (Inl err, s2) \<Rightarrow> (Inl err, deferred locked s2)
         | (Inr _, s2) \<Rightarrow>
           (case db_View fv (sync send dirPath) locked s2 of
              (Inl err, locked, s3) \<Rightarrow> (Inl err, deferred locked s3)
            | (Inr _, locked, s3) \<Rightarrow> (Inr (), deferred locked s3)))"

definition sent_msgs :: "event list \<Rightarrow> VolumeSyncPullItem list" where
  "sent_msgs es = concat (map (\<lambda>e. case e of Send m \<Rightarrow> [m] | _ \<Rightarrow> []) es)"

subsection \<open>What a call delivers, and the walk in the words of the spec\<close>

text \<open>The normalised path that \<open>SyncSend\<close> walks, and its segments.\<close>

definition cleaned :: "string \<Rightarrow> string" where
  "cleaned p = drop 1 (path_Clean (CHR ''/'' # p))"

definition segments :: "string \<Rightarrow> string list" where
  "segments p = clean_elems True [] (split_slash (CHR ''/'' # p))"

text \<open>
  The walk as the spec words it: starting at an inode, look each segment up under the
  current inode; if found, its inode becomes the new parent, whatever kind of entry it
  is; a failed lookup is the result.
\<close>

fun resolve :: "DB \<Rightarrow> inode \<Rightarrow> Dirent option \<Rightarrow> string list \<Rightarrow> error + (inode \<times> Dirent option)" where
  "resolve tx i d [] = Inr (i, d)"
| "resolve tx i d (seg # segs) =
     (case Dirs_Get tx i seg of
        Inl err \<Rightarrow> Inl err
      | Inr de \<Rightarrow> resolve tx (Inode de) (Some de) segs)"

text \<open>The messages handed to the sink between two states of the log.\<close>

definition delivered :: "sys \<Rightarrow> sys \<Rightarrow> VolumeSyncPullItem list" where
  "delivered s s' = drop (length (sent_msgs (events s))) (sent_msgs (events s'))"

text \<open>A sink that accepts every message.\<close>

definition accept :: sink where
  "accept h m = Inr ()"

text \<open>The soft-error message.\<close>

definition not_a_directory :: VolumeSyncPullItem where
  "not_a_directory = \<lparr>Peers = None, Children = [], Error = Some NOT_A_DIRECTORY\<rparr>"

text \<open>
  A reading of a log: at every moment a read transaction is opened, the epoch mutex is
  not held. The first argument says whether the mutex is held at the start.
\<close>

fun view_unlocked :: "bool \<Rightarrow> event list \<Rightarrow> bool" where
  "view_unlocked held [] = True"
| "view_unlocked held (MuLock # es) = view_unlocked True es"
| "view_unlocked held (MuUnlock # es) = view_unlocked False es"
| "view_unlocked held (TxView # es) = (\<not> held \<and> view_unlocked held es)"
| "view_unlocked held (e # es) = view_unlocked held es"

text \<open>The public form of a stored child, when \<open>make_child\<close> succeeds on it.\<close>

definition child :: "DB \<Rightarrow> inode \<Rightarrow> DirsItem \<Rightarrow> wirepeer_Dirent" where
  "child tx i item = projr (make_child tx i item)"

section \<open>Creating a volume (db/volume.go)\<close>

text \<open>
  The two top-level bolt buckets that \<^verbatim>\<open>Volumes\<close> holds: \<open>names\<close> maps a volume name to
  its id, \<open>volumes\<close> maps a volume id to the nested bucket of that volume, which in turn
  holds the four state buckets. A bucket is a finite map from keys to values, and
  \<^verbatim>\<open>Get\<close> on an absent key is nil (\<open>None\<close>).
\<close>

type_synonym bucket = "bytes \<rightharpoonup> bytes"

record Volumes =
  volumes :: "bytes \<rightharpoonup> (bytes \<rightharpoonup> bucket)"
  names :: bucket

record db_Volume =
  vol_id :: bytes

text \<open>
  The names of the state buckets are \<^verbatim>\<open>tokens.VolumeStateDir\<close> and its neighbours,
  declared in \<^verbatim>\<open>tokens\<close>, which is not among the sources; the four values used here
  are the ones \<^verbatim>\<open>fs.go\<close> spells out.
\<close>

definition volumeStateDir :: bytes where "volumeStateDir = ''dir''"
definition volumeStateInode :: bytes where "volumeStateInode = ''inode''"
definition volumeStateSnap :: bytes where "volumeStateSnap = ''snap''"
definition volumeStateStorage :: bytes where "volumeStateStorage = ''storage''"

text \<open>
  \<^verbatim>\<open>bolt.Bucket.CreateBucket\<close> and \<^verbatim>\<open>bolt.Bucket.Put\<close>, from bolt's documentation.
  \<open>CreateBucket\<close> refuses an empty key and a key that is taken (\<^verbatim>\<open>ErrBucketExists\<close>), and
  returns the new, empty bucket; the first component of its result is the parent bucket
  with the new one in it. \<open>Put\<close> refuses an empty key, a key longer than 32768 bytes and a
  value longer than \<open>2 ^ 31 - 2\<close> bytes.
\<close>

definition CreateBucket ::
  "bytes \<Rightarrow> (bytes \<rightharpoonup> (bytes \<rightharpoonup> 'v)) \<Rightarrow> error + (bytes \<rightharpoonup> (bytes \<rightharpoonup> 'v)) \<times> (bytes \<rightharpoonup> 'v)" where
  "CreateBucket key b =
     (if key = [] then Inl (ErrExt ''bucket name required'')
      else if b key \<noteq> None then Inl ErrBucketExists
      else Inr (b(key \<mapsto> Map.empty), Map.empty))"

definition Put :: "bytes \<Rightarrow> bytes \<Rightarrow> bucket \<Rightarrow> error + bucket" where
  "Put key val b =
     (if key = [] then Inl (ErrExt ''key required'')
      else if length key > 32768 then Inl (ErrExt ''key too large'')
      else if length val > 2147483646 then Inl (ErrExt ''value too large'')
      else Inr (b(key \<mapsto> val)))"

text \<open>
  The part of \<^verbatim>\<open>Create\<close> after the volume's bucket \<open>bv\<close> has been created under \<open>volID\<close>.
  \<^verbatim>\<open>VolumeStorage.Add\<close> is not among the sources; what it does to the storage bucket
  is the parameter \<open>add\<close>. Each step writes through to the store, and the store is
  returned as it is at the moment of return. \<^verbatim>\<open>v.Storage()\<close> looks the storage bucket up
  again; were it missing, the nil bucket would make \<^verbatim>\<open>Add\<close> panic, and the call would
  not return (\<open>None\<close>).
\<close>

definition Create_fill ::
  "(string \<Rightarrow> string \<Rightarrow> bytes \<Rightarrow> bucket \<Rightarrow> error + bucket) \<Rightarrow>
   bytes \<Rightarrow> bytes \<Rightarrow> string \<Rightarrow> bytes \<Rightarrow> (bytes \<rightharpoonup> bucket) \<Rightarrow> Volumes \<Rightarrow>
   ((error + db_Volume) \<times> Volumes) option" where
  "Create_fill add n volID storage sharingKey bv b =
     (case Put n volID (names b) of
        Inl err \<Rightarrow> Some (Inl err, b)
      | Inr nm \<Rightarrow>
        (let b = b\<lparr>names := nm\<rparr> in
         case CreateBucket volumeStateDir bv of
           Inl err \<Rightarrow> Some (Inl err, b)
         | Inr (bv, _) \<Rightarrow>
           (let b = b\<lparr>volumes := (volumes b)(volID \<mapsto> bv)\<rparr> in
            case CreateBucket volumeStateInode bv of
              Inl err \<Rightarrow> Some (Inl err, b)
            | Inr (bv, _) \<Rightarrow>
              (let b = b\<lparr>volumes := (volumes b)(volID \<mapsto> bv)\<rparr> in
               case CreateBucket volumeStateSnap bv of
                 Inl err \<Rightarrow> Some (Inl err, b)
               | Inr (bv, _) \<Rightarrow>
                 (let b = b\<lparr>volumes := (volumes b)(volID \<mapsto> bv)\<rparr> in
                  case CreateBucket volumeStateStorage bv of
                    Inl err \<Rightarrow> Some (Inl err, b)
                  | Inr (bv, _) \<Rightarrow>
                    (let b = b\<lparr>volumes := (volumes b)(volID \<mapsto> bv)\<rparr>;
                         v = \<lparr>vol_id = volID\<rparr> in
                     case bv volumeStateStorage of
                       None \<Rightarrow> None
                     | Some st \<Rightarrow>
                       (case add ''default'' storage sharingKey st of
                          Inl err \<Rightarrow> Some (Inl err, b)
                        | Inr st \<Rightarrow>
                          Some (Inr v,
                            b\<lparr>volumes := (volumes b)(volID \<mapsto> bv(volumeStateStorage \<mapsto> st))\<rparr>))))))))"

text \<open>
  The loop at the label \<^verbatim>\<open>random\<close>. \<^verbatim>\<open>randomVolumeID\<close> reads the system's random
  source; the model takes the successive draws as a list, one per round. A draw is an
  error of \<^verbatim>\<open>rand.Read\<close> or 64 bytes. The loop has no bound of its own: when every draw
  collides with an existing volume, it has not returned when the draws run out (\<open>None\<close>).
\<close>

fun Create_random ::
  "(error + bytes) list \<Rightarrow> (string \<Rightarrow> string \<Rightarrow> bytes \<Rightarrow> bucket \<Rightarrow> error + bucket) \<Rightarrow>
   bytes \<Rightarrow> string \<Rightarrow> bytes \<Rightarrow> Volumes \<Rightarrow> ((error + db_Volume) \<times> Volumes) option" where
  "Create_random [] add n storage sharingKey b = None"
| "Create_random (r # rs) add n storage sharingKey b =
     (case r of
        Inl err \<Rightarrow> Some (Inl err, b)
      | Inr volID \<Rightarrow>
        (case CreateBucket volID (volumes b) of
           Inl err \<Rightarrow>
             (if err = ErrBucketExists then Create_random rs add n storage sharingKey b
              else Some (Inl err, b))
         | Inr (vs, bv) \<Rightarrow> Create_fill add n volID storage sharingKey bv (b\<lparr>volumes := vs\<rparr>)))"

definition Create ::
  "(error + bytes) list \<Rightarrow> (string \<Rightarrow> string \<Rightarrow> bytes \<Rightarrow> bucket \<Rightarrow> error + bucket) \<Rightarrow>
   string \<Rightarrow> string \<Rightarrow> bytes \<Rightarrow> Volumes \<Rightarrow> ((error + db_Volume) \<times> Volumes) option" where
  "Create rands add name storage sharingKey b =
     (if name = [] then Some (Inl ErrVolNameInvalid, b)
      else
        (let n = name in
         if names b n \<noteq> None then Some (Inl ErrVolNameExist, b)
         else Create_random rands add n storage sharingKey b))"

definition GetByName :: "Volumes \<Rightarrow> string \<Rightarrow> error + db_Volume" where
  "GetByName b name =
     (case names b name of
        None \<Rightarrow> Inl ErrVolNameNotFound
      | Some volID \<Rightarrow> Inr \<lparr>vol_id = volID\<rparr>)"

definition GetByVolumeID :: "Volumes \<Rightarrow> bytes \<Rightarrow> error + db_Volume" where
  "GetByVolumeID b volID =
     (case volumes b volID of
        None \<Rightarrow> Inl ErrVolumeIDNotFound
      | Some bv \<Rightarrow> Inr \<lparr>vol_id = volID\<rparr>)"

section \<open>Concrete inputs\<close>

text \<open>
  A store whose volume is at tick 7, with an empty root directory and no peers, and the
  volume that \<open>Open\<close> returns on it.
\<close>

definition db0 :: DB where
  "db0 = \<lparr>Epoch = 7, Dirs_Get = (\<lambda>i n. Inl (ErrExt ''ENOENT'')), Dirs_List = (\<lambda>i. []),
     Clock_Get = (\<lambda>i n. Inl (ErrExt ''ENOENT'')), tx_Peers = []\<rparr>"

definition key0 :: bytes where
  "key0 = ''local public key''"

definition sys0 :: sys where
  "sys0 = \<lparr>volume = \<lparr>pubKey = key0, root_inode = InodeRoot, ticks = 7, dirty = True\<rparr>,
     store = db0, events = [TxView, TxClose]\<rparr>"

text \<open>The same volume after its first seal.\<close>

definition sys1 :: sys where
  "sys1 = \<lparr>volume = \<lparr>pubKey = key0, root_inode = InodeRoot, ticks = 8, dirty = False\<rparr>,
     store = db0\<lparr>Epoch := 8\<rparr>, events = [TxView, TxClose, TxUpdate, TxCommit]\<rparr>"

text \<open>
  A sequence of calls on the volume of \<open>sys0\<close>: two seals in a row, then seals after
  calls of \<open>dirtyEpoch\<close>, one of which fails because the store cannot write the tick.
\<close>

definition calls0 :: "op list" where
  "calls0 = [SealEpoch NoFault, SealEpoch NoFault, MarkDirty,
     SealEpoch (OpFails (ErrExt ''disk error'')), SealEpoch NoFault, MarkDirty,
     SealEpoch NoFault]"

text \<open>
  A store with a small tree. Under the root, \<open>f\<close> is a file (inode 5) and \<open>d\<close> is a
  directory (inode 6); the directory name space also holds an entry \<open>x\<close>, a directory
  (inode 9), under the inode of the file \<open>f\<close>, and \<open>x\<close> has one child, the file \<open>c\<close>.
  Three peers are known, of which the second is not allowed to see the volume.
\<close>

definition file5 :: Dirent where
  "file5 = \<lparr>Inode = 5, File = Some \<lparr>Manifest = ''manifest of f''\<rparr>, Dir = None\<rparr>"

definition dir6 :: Dirent where
  "dir6 = \<lparr>Inode = 6, File = None, Dir = Some ()\<rparr>"

definition dir9 :: Dirent where
  "dir9 = \<lparr>Inode = 9, File = None, Dir = Some ()\<rparr>"

definition file10 :: Dirent where
  "file10 = \<lparr>Inode = 10, File = Some \<lparr>Manifest = ''manifest of c''\<rparr>, Dir = None\<rparr>"

definition peers0 :: "Peer list" where
  "peers0 = [\<lparr>peer_ID = 1, peer_Pub = ''key of peer 1'', IsAllowed = True\<rparr>,
             \<lparr>peer_ID = 2, peer_Pub = ''key of peer 2'', IsAllowed = False\<rparr>,
             \<lparr>peer_ID = 3, peer_Pub = ''key of peer 3'', IsAllowed = True\<rparr>]"

definition dbT :: DB where
  "dbT = \<lparr>Epoch = 8,
     Dirs_Get = (\<lambda>i n.
       if i = 1 \<and> n = ''f'' then Inr file5
       else if i = 1 \<and> n = ''d'' then Inr dir6
       else if i = 5 \<and> n = ''x'' then Inr dir9
       else if i = 9 \<and> n = ''c'' then Inr file10
       else Inl (ErrExt ''ENOENT'')),
     Dirs_List = (\<lambda>i.
       if i = 1 then [\<lparr>item_Name = ''d'', item_Unmarshal = Inr dir6\<rparr>,
                      \<lparr>item_Name = ''f'', item_Unmarshal = Inr file5\<rparr>]
       else if i = 5 then [\<lparr>item_Name = ''x'', item_Unmarshal = Inr dir9\<rparr>]
       else if i = 9 then [\<lparr>item_Name = ''c'', item_Unmarshal = Inr file10\<rparr>]
       else []),
     Clock_Get = (\<lambda>i n. Inr (Clock (Inr ''clock''))),
     tx_Peers = peers0\<rparr>"

definition sysT :: sys where
  "sysT = \<lparr>volume = \<lparr>pubKey = key0, root_inode = InodeRoot, ticks = 8, dirty = False\<rparr>,
     store = dbT, events = []\<rparr>"

text \<open>
  A store whose root directory has 2500 children, all of them files, with the names
  \<open>a\<close>, \<open>aa\<close>, \<open>aaa\<close> and so on, in key order.
\<close>

definition item_of :: "nat \<Rightarrow> DirsItem" where
  "item_of k = \<lparr>item_Name = replicate (Suc k) CHR ''a'',
     item_Unmarshal = Inr \<lparr>Inode = of_nat k + 2, File = Some \<lparr>Manifest = ''m''\<rparr>, Dir = None\<rparr>\<rparr>"

definition big :: nat where
  "big = 2500"

definition dbBig :: DB where
  "dbBig = \<lparr>Epoch = 8,
     Dirs_Get = (\<lambda>i n. Inl (ErrExt ''ENOENT'')),
     Dirs_List = (\<lambda>i. if i = 1 then map item_of [0..<big] else []),
     Clock_Get = (\<lambda>i n. Inr (Clock (Inr ''clock''))),
     tx_Peers = []\<rparr>"

definition sysBig :: sys where
  "sysBig = \<lparr>volume = \<lparr>pubKey = key0, root_inode = InodeRoot, ticks = 8, dirty = False\<rparr>,
     store = dbBig, events = []\<rparr>"

text \<open>
  A metadata store that holds one volume, named \<open>photos\<close>; two volume ids; and a storage
  registration that puts the location and the key under the backend's name.
\<close>

definition id0 :: bytes where
  "id0 = replicate 64 CHR ''a''"

definition id1 :: bytes where
  "id1 = replicate 64 CHR ''b''"

definition vols0 :: Volumes where
  "vols0 = \<lparr>volumes = [id0 \<mapsto> Map.empty], names = [''photos'' \<mapsto> id0]\<rparr>"

definition add0 :: "string \<Rightarrow> string \<Rightarrow> bytes \<Rightarrow> bucket \<Rightarrow> error + bucket" where
  "add0 name backend sharingKey b = Put name (backend @ sharingKey) b"

section \<open>The epoch clock: properties\<close>

lemma Open_db0: "Open NoFault db0 key0 = Inr sys0"
  by (simp add: Open_def db_View_def initFromDB_def db_Epoch_def log_def sys0_def db0_def)

lemma cleanEpoch_clean:
  "\<not> dirty (volume s) \<Longrightarrow> cleanEpoch f s = (Inr (ticks (volume s)), s)"
  by (simp add: cleanEpoch_def)

lemma cleanEpoch_success:
  "cleanEpoch f s = (Inr t, s') \<Longrightarrow> \<not> dirty (volume s') \<and> ticks (volume s') = t"
  by (auto simp: cleanEpoch_def db_Update_def nextEpoch_def NextEpoch_def log_def
      split: if_splits fault.splits prod.splits sum.splits)

text \<open>What a seal on a dirty volume does, by the behaviour of the store.\<close>

lemma cleanEpoch_dirty_cases:
  assumes "dirty (volume s)"
  shows "cleanEpoch f s =
    (case f of
       BeginFails e \<Rightarrow> (Inl e, s)
     | OpFails e \<Rightarrow> (Inl e, s\<lparr>events := events s @ [TxUpdate, TxRollback]\<rparr>)
     | EndFails e \<Rightarrow>
         (Inl e, s\<lparr>volume := (volume s)\<lparr>ticks := Epoch (store s) + 1, dirty := False\<rparr>,
                   events := events s @ [TxUpdate, TxRollback]\<rparr>)
     | NoFault \<Rightarrow>
         (Inr (Epoch (store s) + 1),
          s\<lparr>store := (store s)\<lparr>Epoch := Epoch (store s) + 1\<rparr>,
            volume := (volume s)\<lparr>ticks := Epoch (store s) + 1, dirty := False\<rparr>,
            events := events s @ [TxUpdate, TxCommit]\<rparr>))"
  using assms
  by (cases f) (simp_all add: cleanEpoch_def db_Update_def nextEpoch_def NextEpoch_def log_def)

lemma cleanEpoch_sys0: "cleanEpoch NoFault sys0 = (Inr 8, sys1)"
  by (simp add: cleanEpoch_dirty_cases sys0_def sys1_def db0_def)

lemma Open_ok:
  "Open f db pk = Inr s \<Longrightarrow> dirty (volume s) \<and> ticks (volume s) = Epoch db \<and> store s = db"
  by (auto simp: Open_def db_View_def initFromDB_def db_Epoch_def log_def Let_def
      split: if_splits fault.splits prod.splits sum.splits)

lemma cleanEpoch_Inr_dirty:
  assumes "dirty (volume s)" "cleanEpoch f s = (Inr t, s')"
  shows "t = Epoch (store s) + 1 \<and> Epoch (store s') = Epoch (store s) + 1 \<and>
         updates s' = Suc (updates s)"
  using assms(2) unfolding cleanEpoch_dirty_cases [OF assms(1)]
  by (cases f) (auto simp: updates_def)

text \<open>
  C6. When a call of \<open>cleanEpoch\<close> has returned a tick, a second call with no
  \<open>dirtyEpoch\<close> in between returns the same tick, whatever the store would do, and leaves
  the whole state as it was: the persisted store is not written and no write
  transaction is begun.
\<close>

theorem cleanEpoch_twice_same_tick_no_write:
  "cleanEpoch f s = (Inr t, s') \<Longrightarrow>
     cleanEpoch g s' = (Inr t, s') \<and>
     store (snd (cleanEpoch g s')) = store s' \<and>
     updates (snd (cleanEpoch g s')) = updates s'"
  using cleanEpoch_success [of f s t s'] cleanEpoch_clean [of s' g] by simp

theorem cleanEpoch_twice_witness:
  "cleanEpoch NoFault sys0 = (Inr 8, sys1) \<and>
   cleanEpoch (EndFails (ErrExt ''disk full'')) sys1 = (Inr 8, sys1) \<and>
   updates sys1 = 1 \<and>
   updates (snd (cleanEpoch (EndFails (ErrExt ''disk full'')) sys1)) = 1"
  using cleanEpoch_twice_same_tick_no_write
    [OF cleanEpoch_sys0, of "EndFails (ErrExt ''disk full'')"] cleanEpoch_sys0
  by (simp add: updates_def sys1_def)

lemma unat_plus1: "unat (p::Epoch) + 1 < 2 ^ 64 \<Longrightarrow> unat (p + 1) = unat p + 1"
  using unat_add_lem [of p 1] by simp

lemma word_le_plus1: "unat (p::Epoch) + 1 < 2 ^ 64 \<Longrightarrow> p \<le> p + 1"
  by (simp add: word_le_nat_alt unat_plus1)

lemma word_less_plus1: "unat (p::Epoch) + 1 < 2 ^ 64 \<Longrightarrow> p < p + 1"
  by (simp add: word_less_nat_alt unat_plus1)

lemma step_cases:
  "step c s = (r, s') \<Longrightarrow>
     (store s' = store s \<and> (ticks (volume s') = ticks (volume s) \<or> 
          (\<exists>e. c = SealEpoch (EndFails e) \<and> dirty (volume s) \<and> ticks (volume s') = Epoch (store s) + 1))
        \<and> (\<forall>t. r = Sealed (Inr t) \<longrightarrow> \<not> dirty (volume s) \<and> t = ticks (volume s'))) \<or>
     (dirty (volume s) \<and> c = SealEpoch NoFault \<and> r = Sealed (Inr (Epoch (store s) + 1)) \<and>
        Epoch (store s') = Epoch (store s) + 1 \<and> ticks (volume s') = Epoch (store s) + 1)"
proof (cases c)
  case MarkDirty
  assume "step c s = (r, s')"
  then show ?thesis using MarkDirty by (auto simp: dirtyEpoch_def log_def Let_def)
next
  case (SealEpoch f)
  assume a: "step c s = (r, s')"
  show ?thesis
  proof (cases "dirty (volume s)")
    case True
    then show ?thesis using a SealEpoch
      by (cases f) (auto simp: cleanEpoch_dirty_cases)
  next
    case False
    then show ?thesis using a SealEpoch by (auto simp: cleanEpoch_clean)
  qed
qed

lemma step_facts:
  assumes st: "step c s = (r, s')" and n: "near s" and b: "unat (Epoch (store s)) + 1 < 2 ^ 64"
  shows "near s'" 
    and "ticks (volume s) \<le> ticks (volume s')"
    and "Epoch (store s) \<le> Epoch (store s')"
    and "unat (Epoch (store s')) \<le> unat (Epoch (store s)) + 1"
    and "r = Sealed (Inr t) \<Longrightarrow> t = ticks (volume s')"
    and "r = Sealed (Inr t) \<Longrightarrow> dirty (volume s) \<Longrightarrow> t = Epoch (store s') \<and> Epoch (store s) < t"
  using step_cases [OF st] n word_le_plus1 [OF b] word_less_plus1 [OF b] unat_plus1 [OF b]
  by (auto simp: near_def)

lemma sealed_ticks_Cons:
  "sealed_ticks ((r, s) # rs) =
     (case r of Sealed (Inr t) \<Rightarrow> t # sealed_ticks rs | _ \<Rightarrow> sealed_ticks rs)"
  by (cases r; simp split: sum.splits)


lemma run_lower:
  "near s \<Longrightarrow> unat (Epoch (store s)) + length cs < 2 ^ 64 \<Longrightarrow>
     t \<in> set (sealed_ticks (run cs s)) \<Longrightarrow> ticks (volume s) \<le> t"
proof (induction cs arbitrary: s)
  case Nil
  then show ?case by simp
next
  case (Cons c cs)
  obtain r s' where st: "step c s = (r, s')" by (cases "step c s")
  have b: "unat (Epoch (store s)) + 1 < 2 ^ 64" using Cons.prems(2) by simp
  note f = step_facts [OF st Cons.prems(1) b]
  have b': "unat (Epoch (store s')) + length cs < 2 ^ 64" using f(4) Cons.prems(2) by simp
  have "t = ticks (volume s') \<or> t \<in> set (sealed_ticks (run cs s'))"
    using Cons.prems(3) st f(5) by (auto simp: sealed_ticks_Cons split: ret.splits sum.splits)
  then show ?case
    using Cons.IH [OF f(1) b'] f(2) by auto
qed

lemma run_sorted:
  "near s \<Longrightarrow> unat (Epoch (store s)) + length cs < 2 ^ 64 \<Longrightarrow> sorted (sealed_ticks (run cs s))"
proof (induction cs arbitrary: s)
  case Nil
  then show ?case by simp
next
  case (Cons c cs)
  obtain r s' where st: "step c s = (r, s')" by (cases "step c s")
  have b: "unat (Epoch (store s)) + 1 < 2 ^ 64" using Cons.prems(2) by simp
  note f = step_facts [OF st Cons.prems(1) b]
  have b': "unat (Epoch (store s')) + length cs < 2 ^ 64" using f(4) Cons.prems(2) by simp
  show ?case
    using Cons.IH [OF f(1) b'] run_lower [OF f(1) b'] st f(5)
    by (auto simp: sealed_ticks_Cons split: ret.splits sum.splits)
qed

lemma persisted_lower:
  "near s \<Longrightarrow> unat (Epoch (store s)) + length cs < 2 ^ 64 \<Longrightarrow>
     p \<in> set (persisted (run cs s)) \<Longrightarrow> Epoch (store s) \<le> p"
proof (induction cs arbitrary: s)
  case Nil
  then show ?case by (simp add: persisted_def)
next
  case (Cons c cs)
  obtain r s' where st: "step c s = (r, s')" by (cases "step c s")
  have b: "unat (Epoch (store s)) + 1 < 2 ^ 64" using Cons.prems(2) by simp
  note f = step_facts [OF st Cons.prems(1) b]
  have b': "unat (Epoch (store s')) + length cs < 2 ^ 64" using f(4) Cons.prems(2) by simp
  have "p = Epoch (store s') \<or> p \<in> set (persisted (run cs s'))"
    using Cons.prems(3) st by (auto simp: persisted_def)
  then show ?case
    using Cons.IH [OF f(1) b'] f(3) by auto
qed

lemma persisted_sorted:
  "near s \<Longrightarrow> unat (Epoch (store s)) + length cs < 2 ^ 64 \<Longrightarrow>
     sorted (Epoch (store s) # persisted (run cs s))"
proof (induction cs arbitrary: s)
  case Nil
  then show ?case by (simp add: persisted_def)
next
  case (Cons c cs)
  obtain r s' where st: "step c s = (r, s')" by (cases "step c s")
  have b: "unat (Epoch (store s)) + 1 < 2 ^ 64" using Cons.prems(2) by simp
  note f = step_facts [OF st Cons.prems(1) b]
  have b': "unat (Epoch (store s')) + length cs < 2 ^ 64" using f(4) Cons.prems(2) by simp
  have "persisted (run (c # cs) s) = Epoch (store s') # persisted (run cs s')"
    using st by (simp add: persisted_def)
  then show ?case
    using Cons.IH [OF f(1) b'] persisted_lower [OF Cons.prems(1,2)] f(3) by auto
qed

lemma step_store:
  "store (snd (step c s)) = store s \<or>
   (c = SealEpoch NoFault \<and> dirty (volume s) \<and>
    fst (step c s) = Sealed (Inr (Epoch (store s) + 1)) \<and>
    store (snd (step c s)) = (store s)\<lparr>Epoch := Epoch (store s) + 1\<rparr> \<and>
    updates (snd (step c s)) = Suc (updates s))"
proof (cases c)
  case MarkDirty
  then show ?thesis by (simp add: dirtyEpoch_def log_def Let_def)
next
  case (SealEpoch f)
  show ?thesis
  proof (cases "dirty (volume s)")
    case True
    then show ?thesis using SealEpoch
      by (cases f) (auto simp: cleanEpoch_dirty_cases updates_def)
  next
    case False
    then show ?thesis using SealEpoch by (auto simp: cleanEpoch_clean)
  qed
qed


text \<open>A step when no commit fails: the cached tick is the persisted one before and after.\<close>

lemma step_committing:
  assumes st: "step c s = (r, s')"
    and eq: "ticks (volume s) = Epoch (store s)"
    and ne: "\<forall>e. c \<noteq> SealEpoch (EndFails e)"
    and b: "unat (Epoch (store s)) + 1 < 2 ^ 64"
  shows "ticks (volume s') = Epoch (store s')"
    and "ticks (volume s) \<le> ticks (volume s')"
    and "unat (Epoch (store s')) \<le> unat (Epoch (store s)) + 1"
    and "r = Sealed (Inr t) \<Longrightarrow> t = ticks (volume s')"
    and "dirty (volume s) \<Longrightarrow> dirty (volume s') \<or> ticks (volume s) < ticks (volume s')"
    and "r = Marked t \<Longrightarrow> dirty (volume s')"
proof -
  have "ticks (volume s') = Epoch (store s') \<and>
        ticks (volume s) \<le> ticks (volume s') \<and>
        unat (Epoch (store s')) \<le> unat (Epoch (store s)) + 1 \<and>
        (r = Sealed (Inr t) \<longrightarrow> t = ticks (volume s')) \<and>
        (dirty (volume s) \<longrightarrow> dirty (volume s') \<or> ticks (volume s) < ticks (volume s')) \<and>
        (r = Marked t \<longrightarrow> dirty (volume s'))"
  proof (cases c)
    case MarkDirty
    then show ?thesis using st eq by (auto simp: dirtyEpoch_def log_def Let_def)
  next
    case (SealEpoch f)
    show ?thesis
    proof (cases "dirty (volume s)")
      case True
      then show ?thesis
        using st SealEpoch eq ne word_le_plus1 [OF b] word_less_plus1 [OF b] unat_plus1 [OF b]
        by (cases f) (auto simp: cleanEpoch_dirty_cases)
    next
      case False
      then show ?thesis using st SealEpoch eq by (auto simp: cleanEpoch_clean)
    qed
  qed
  then show "ticks (volume s') = Epoch (store s')"
    and "ticks (volume s) \<le> ticks (volume s')"
    and "unat (Epoch (store s')) \<le> unat (Epoch (store s)) + 1"
    and "r = Sealed (Inr t) \<Longrightarrow> t = ticks (volume s')"
    and "dirty (volume s) \<Longrightarrow> dirty (volume s') \<or> ticks (volume s) < ticks (volume s')"
    and "r = Marked t \<Longrightarrow> dirty (volume s')"
    by blast+
qed

text \<open>
  From a state on, the next tick returned is not below the cached one, and is above it
  when the volume is dirty or a call of \<open>dirtyEpoch\<close> comes first.
\<close>

lemma next_sealed_above:
  assumes "ticks (volume s) = Epoch (store s)"
    and "\<forall>e. SealEpoch (EndFails e) \<notin> set cs"
    and "unat (Epoch (store s)) + length cs < 2 ^ 64"
    and "map fst (run cs s) = mid @ Sealed (Inr t2) # post"
  shows "ticks (volume s) \<le> t2 \<and>
         (dirty (volume s) \<or> (\<exists>t. Marked t \<in> set mid) \<longrightarrow> ticks (volume s) < t2)"
  using assms
proof (induction cs arbitrary: s mid)
  case Nil
  then show ?case by simp
next
  case (Cons c cs)
  obtain r s' where st: "step c s = (r, s')" by (cases "step c s")
  have ne: "\<forall>e. c \<noteq> SealEpoch (EndFails e)" using Cons.prems(2) by auto
  have ne': "\<forall>e. SealEpoch (EndFails e) \<notin> set cs" using Cons.prems(2) by auto
  have b: "unat (Epoch (store s)) + 1 < 2 ^ 64" using Cons.prems(3) by simp
  note f = step_committing [OF st Cons.prems(1) ne b]
  have b': "unat (Epoch (store s')) + length cs < 2 ^ 64" using f(3) Cons.prems(3) by simp
  have rn: "r # map fst (run cs s') = mid @ Sealed (Inr t2) # post"
    using Cons.prems(4) st by simp
  show ?case
  proof (cases mid)
    case Nil
    then have r: "r = Sealed (Inr t2)" using rn by simp
    have t: "t2 = ticks (volume s')" using f(4) [OF r] .
    have nd: "\<not> dirty (volume s')"
      using st r cleanEpoch_success [of _ s t2 s'] by (cases c) (auto split: prod.splits)
    show ?thesis using Nil t f(2) f(5) nd by auto
  next
    case (Cons m mid')
    then have r: "r = m" and rest: "map fst (run cs s') = mid' @ Sealed (Inr t2) # post"
      using rn by simp_all
    note ih = Cons.IH [OF f(1) ne' b' rest]
    have "ticks (volume s) < t2"
      if a: "dirty (volume s) \<or> (\<exists>t. Marked t \<in> set mid)"
    proof -
      consider (m) "\<exists>t. m = Marked t" | (d) "dirty (volume s)" | (l) "\<exists>t. Marked t \<in> set mid'"
        using a Cons by auto
      then show ?thesis
      proof cases
        case m
        then have "dirty (volume s')" using f(6) r by blast
        then show ?thesis using ih f(2) by auto
      next
        case d
        then show ?thesis using f(5) ih f(2) by auto
      next
        case l
        then show ?thesis using ih f(2) by auto
      qed
    qed
    then show ?thesis using ih f(2) by auto
  qed
qed

lemma sealed_pairs:
  assumes "ticks (volume s) = Epoch (store s)"
    and "\<forall>e. SealEpoch (EndFails e) \<notin> set cs"
    and "unat (Epoch (store s)) + length cs < 2 ^ 64"
    and "map fst (run cs s) = pre @ Sealed (Inr t1) # mid @ Sealed (Inr t2) # post"
  shows "t1 \<le> t2 \<and> ((\<exists>t. Marked t \<in> set mid) \<longrightarrow> t1 < t2)"
  using assms
proof (induction cs arbitrary: s pre)
  case Nil
  then show ?case by simp
next
  case (Cons c cs)
  obtain r s' where st: "step c s = (r, s')" by (cases "step c s")
  have ne: "\<forall>e. c \<noteq> SealEpoch (EndFails e)" using Cons.prems(2) by auto
  have ne': "\<forall>e. SealEpoch (EndFails e) \<notin> set cs" using Cons.prems(2) by auto
  have b: "unat (Epoch (store s)) + 1 < 2 ^ 64" using Cons.prems(3) by simp
  note f = step_committing [OF st Cons.prems(1) ne b]
  have b': "unat (Epoch (store s')) + length cs < 2 ^ 64" using f(3) Cons.prems(3) by simp
  have rn: "r # map fst (run cs s') = pre @ Sealed (Inr t1) # mid @ Sealed (Inr t2) # post"
    using Cons.prems(4) st by simp
  show ?case
  proof (cases pre)
    case Nil
    then have r: "r = Sealed (Inr t1)"
      and rest: "map fst (run cs s') = mid @ Sealed (Inr t2) # post"
      using rn by simp_all
    have t: "t1 = ticks (volume s')" using f(4) [OF r] .
    have nd: "\<not> dirty (volume s')"
      using st r cleanEpoch_success [of _ s t1 s'] by (cases c) (auto split: prod.splits)
    show ?thesis using next_sealed_above [OF f(1) ne' b' rest] t nd by simp
  next
    case (Cons x pre')
    then have "map fst (run cs s') = pre' @ Sealed (Inr t1) # mid @ Sealed (Inr t2) # post"
      using rn by simp
    then show ?thesis by (rule Cons.IH [OF f(1) ne' b'])
  qed
qed

text \<open>
  C1, as the code has it. Take a volume that \<open>Open\<close> returned and any sequence of
  \<open>dirtyEpoch\<close> and \<open>cleanEpoch\<close> calls on it, as long as the 64-bit tick does not wrap.
  When no write transaction of the sequence fails to commit: the ticks returned by the
  successful seals never decrease, and of any two successful seals with a call of
  \<open>dirtyEpoch\<close> between them, the later returns a strictly greater tick than the
  earlier. Under every behaviour of the store: the persisted tick never decreases; and a
  call changes the persisted store only when it is a seal of a dirty volume whose write
  transaction commits, and then by adding exactly one to the tick, which is the value
  returned.
\<close>

theorem sealed_ticks_increase_after_MarkDirty:
  assumes "Open f db pk = Inr s" and "unat (Epoch db) + length cs < 2 ^ 64"
  shows "((\<forall>e. SealEpoch (EndFails e) \<notin> set cs) \<longrightarrow>
            sorted (sealed_ticks (run cs s)) \<and>
            (\<forall>pre t1 mid t2 post.
               map fst (run cs s) = pre @ Sealed (Inr t1) # mid @ Sealed (Inr t2) # post \<longrightarrow>
               t1 \<le> t2 \<and> ((\<exists>t. Marked t \<in> set mid) \<longrightarrow> t1 < t2))) \<and>
         sorted (Epoch db # persisted (run cs s)) \<and>
         (\<forall>c s1. store (snd (step c s1)) = store s1 \<or>
            (c = SealEpoch NoFault \<and> dirty (volume s1) \<and>
             fst (step c s1) = Sealed (Inr (Epoch (store s1) + 1)) \<and>
             store (snd (step c s1)) = (store s1)\<lparr>Epoch := Epoch (store s1) + 1\<rparr> \<and>
             updates (snd (step c s1)) = Suc (updates s1)))"
proof -
  have eq: "ticks (volume s) = Epoch (store s)" and st: "store s = db"
    using Open_ok [OF assms(1)] by simp_all
  have n: "near s" using eq by (simp add: near_def)
  have b: "unat (Epoch (store s)) + length cs < 2 ^ 64"
    using assms(2) st by simp
  have p: "t1 \<le> t2 \<and> ((\<exists>t. Marked t \<in> set mid) \<longrightarrow> t1 < t2)"
    if "\<forall>e. SealEpoch (EndFails e) \<notin> set cs"
      and "map fst (run cs s) = pre @ Sealed (Inr t1) # mid @ Sealed (Inr t2) # post"
    for pre t1 mid t2 post
    using sealed_pairs [OF eq that(1) b that(2)] .
  show ?thesis
    using run_sorted [OF n b] p persisted_sorted [OF n b] st step_store
    by blast
qed

theorem sealed_ticks_witness:
  "Open NoFault db0 key0 = Inr sys0 \<and>
   map fst (run calls0 sys0) =
     [Sealed (Inr 8), Sealed (Inr 8), Marked 8, Sealed (Inl (ErrExt ''disk error'')),
      Sealed (Inr 9), Marked 9, Sealed (Inr 10)] \<and>
   sealed_ticks (run calls0 sys0) = [8, 8, 9, 10] \<and>
   sorted (sealed_ticks (run calls0 sys0)) \<and>
   sealed_ticks (run calls0 sys0) ! 1 < sealed_ticks (run calls0 sys0) ! 2 \<and>
   sealed_ticks (run calls0 sys0) ! 2 < sealed_ticks (run calls0 sys0) ! 3 \<and>
   persisted (run calls0 sys0) = [8, 8, 8, 8, 9, 9, 10] \<and>
   sorted (Epoch db0 # persisted (run calls0 sys0))"
proof -
  have b: "unat (Epoch db0) + length calls0 < 2 ^ 64"
    by (simp add: db0_def calls0_def)
  have ne: "\<forall>e. SealEpoch (EndFails e) \<notin> set calls0"
    by (simp add: calls0_def)
  have 0: "map fst (run calls0 sys0) =
     [Sealed (Inr 8), Sealed (Inr 8), Marked 8, Sealed (Inl (ErrExt ''disk error'')),
      Sealed (Inr 9), Marked 9, Sealed (Inr 10)]"
    by (simp add: calls0_def sys0_def db0_def cleanEpoch_def db_Update_def nextEpoch_def
        NextEpoch_def dirtyEpoch_def log_def)
  have 1: "sealed_ticks (run calls0 sys0) = [8, 8, 9, 10]"
    by (simp add: calls0_def sys0_def db0_def cleanEpoch_def db_Update_def nextEpoch_def
        NextEpoch_def dirtyEpoch_def log_def)
  have 3: "persisted (run calls0 sys0) = [8, 8, 8, 8, 9, 9, 10]"
    by (simp add: persisted_def calls0_def sys0_def db0_def cleanEpoch_def db_Update_def
        nextEpoch_def NextEpoch_def dirtyEpoch_def log_def)
  note t = sealed_ticks_increase_after_MarkDirty [OF Open_db0 b]
  have s: "sorted (sealed_ticks (run calls0 sys0))"
    and pr: "\<And>pre t1 mid t2 post.
        map fst (run calls0 sys0) = pre @ Sealed (Inr t1) # mid @ Sealed (Inr t2) # post \<Longrightarrow>
        (\<exists>t. Marked t \<in> set mid) \<Longrightarrow> t1 < t2"
    and ps: "sorted (Epoch db0 # persisted (run calls0 sys0))"
    using t ne by blast+
  have a: "(8::Epoch) < 9"
    using pr [of "[Sealed (Inr 8)]" 8 "[Marked 8, Sealed (Inl (ErrExt ''disk error''))]" 9
        "[Marked 9, Sealed (Inr 10)]"] 0
    by simp
  have c: "(9::Epoch) < 10"
    using pr [of "[Sealed (Inr 8), Sealed (Inr 8), Marked 8, Sealed (Inl (ErrExt ''disk error''))]"
        9 "[Marked 9]" 10 "[]"] 0
    by simp
  show ?thesis
    using Open_db0 0 1 3 s ps a c by simp
qed

text \<open>
  C1 as stated fails: two seals with no \<open>dirtyEpoch\<close> between them return the same tick,
  so the returned ticks are not strictly increasing.
\<close>

theorem sealed_ticks_not_strict:
  "sealed_ticks (run [SealEpoch NoFault, SealEpoch NoFault] sys0) = [8, 8] \<and>
   \<not> sorted_wrt (<) (sealed_ticks (run [SealEpoch NoFault, SealEpoch NoFault] sys0))"
  by (simp add: sys0_def db0_def cleanEpoch_def db_Update_def nextEpoch_def
      NextEpoch_def log_def)

section \<open>SyncSend: properties\<close>

subsection \<open>The path that is walked\<close>

lemma cleaned_segments: "cleaned p = join_slash (segments p)"
  by (simp add: cleaned_def segments_def path_Clean_def Let_def)

lemma split_slash_no_slash: "e \<in> set (split_slash p) \<Longrightarrow> CHR ''/'' \<notin> set e"
  by (induction p arbitrary: e) (auto split: if_splits list.splits)

lemma clean_elems_wf:
  "(\<forall>e\<in>set out. e \<noteq> [] \<and> CHR ''/'' \<notin> set e) \<Longrightarrow> (\<forall>e\<in>set es. CHR ''/'' \<notin> set e) \<Longrightarrow>
     e \<in> set (clean_elems rooted out es) \<Longrightarrow> e \<noteq> [] \<and> CHR ''/'' \<notin> set e"
proof (induction es arbitrary: out)
  case Nil
  then show ?case by simp
next
  case (Cons a es)
  have bl: "\<forall>e\<in>set (butlast out). e \<noteq> [] \<and> CHR ''/'' \<notin> set e"
    using Cons.prems(1) by (meson in_set_butlastD)
  have dd: "\<forall>e\<in>set (out @ [''..'']). e \<noteq> [] \<and> CHR ''/'' \<notin> set e"
    using Cons.prems(1) by auto
  have aa: "a \<noteq> [] \<Longrightarrow> \<forall>e\<in>set (out @ [a]). e \<noteq> [] \<and> CHR ''/'' \<notin> set e"
    using Cons.prems(1,2) by auto
  have es: "\<forall>e\<in>set es. CHR ''/'' \<notin> set e" using Cons.prems(2) by simp
  show ?case
    using Cons.prems(3) Cons.IH [OF Cons.prems(1) es] Cons.IH [OF bl es] Cons.IH [OF dd es]
      Cons.IH [OF aa es]
    by (auto split: if_splits)
qed

lemma segments_wf: "e \<in> set (segments p) \<Longrightarrow> e \<noteq> [] \<and> CHR ''/'' \<notin> set e"
  unfolding segments_def
  by (rule clean_elems_wf [where out = "[]"]) (auto dest: split_slash_no_slash)

lemma IndexByte_absent: "c \<notin> set p \<Longrightarrow> IndexByte p c = - 1"
  by (induction p) auto

lemma IndexByte_first: "c \<notin> set p \<Longrightarrow> IndexByte (p @ c # q) c = int (length p)"
  by (induction p) (auto simp: Let_def)

lemma splitPath_last: "CHR ''/'' \<notin> set seg \<Longrightarrow> splitPath seg = (seg, [])"
  by (simp add: splitPath_def IndexByte_absent)

lemma splitPath_first:
  "CHR ''/'' \<notin> set seg \<Longrightarrow> splitPath (seg @ CHR ''/'' # rest) = (seg, rest)"
proof -
  assume a: "CHR ''/'' \<notin> set seg"
  have n: "nat (int (length seg) + 1) = Suc (length seg)" by simp
  show ?thesis
    by (simp add: splitPath_def IndexByte_first [OF a] Let_def n del: of_nat_Suc)
qed

lemma walk_empty: "walk tx i d [] = Inr (i, d)"
  by (simp add: walk.simps)

lemma walk_last:
  "seg \<noteq> [] \<Longrightarrow> CHR ''/'' \<notin> set seg \<Longrightarrow>
     walk tx i d seg = (case Dirs_Get tx i seg of Inl err \<Rightarrow> Inl err | Inr de \<Rightarrow> Inr (Inode de, Some de))"
  by (subst walk.simps) (simp add: splitPath_last walk_empty cong: sum.case_cong)

lemma walk_first:
  "CHR ''/'' \<notin> set seg \<Longrightarrow>
     walk tx i d (seg @ CHR ''/'' # rest) =
       (case Dirs_Get tx i seg of Inl err \<Rightarrow> Inl err | Inr de \<Rightarrow> walk tx (Inode de) (Some de) rest)"
  by (subst walk.simps) (simp add: splitPath_first)

lemma walk_join:
  "(\<forall>e\<in>set segs. e \<noteq> [] \<and> CHR ''/'' \<notin> set e) \<Longrightarrow>
     walk tx i d (join_slash segs) = resolve tx i d segs"
proof (induction segs arbitrary: i d rule: join_slash.induct)
  case 1
  then show ?case by (simp add: walk_empty)
next
  case (2 e)
  then show ?case by (simp add: walk_last split: sum.splits)
next
  case (3 e v va)
  then show ?case by (simp add: walk_first split: sum.splits)
qed

lemma walk_refines: "walk tx i d (cleaned p) = resolve tx i d (segments p)"
  unfolding cleaned_segments by (rule walk_join) (simp add: segments_wf)

lemma resolve_append:
  "resolve tx i d (pre @ post) =
     (case resolve tx i d pre of Inl err \<Rightarrow> Inl err | Inr (j, d') \<Rightarrow> resolve tx j d' post)"
  by (induction pre arbitrary: i d) (auto split: sum.splits)

subsection \<open>What the seal leaves alone\<close>

lemma walk_Epoch [simp]: "walk (tx\<lparr>Epoch := e\<rparr>) i d p = walk tx i d p"
proof (induction tx i d p rule: walk.induct)
  case (1 tx dirInode dirDE dirPath)
  show ?case
    by (subst (1 2) walk.simps) (auto simp: Let_def 1 split: sum.splits)
qed

lemma make_child_Epoch [simp]: "make_child (tx\<lparr>Epoch := e\<rparr>) i item = make_child tx i item"
  by (simp add: make_child_def Let_def cong: sum.case_cong option.case_cong)

lemma children_Epoch [simp]:
  "children (tx\<lparr>Epoch := e\<rparr>) send i items msg sent = children tx send i items msg sent"
  by (induction items arbitrary: msg sent) (auto simp: Let_def split: sum.splits)

lemma sync_body_Epoch [simp]: "sync_body (tx\<lparr>Epoch := e\<rparr>) send v p = sync_body tx send v p"
  by (simp add: sync_body_def Let_def cong: sum.case_cong prod.case_cong if_cong)

lemma sync_body_volume:
  "pubKey v' = pubKey v \<Longrightarrow> root_inode v' = root_inode v \<Longrightarrow>
     sync_body tx send v' p = sync_body tx send v p"
  by (simp add: sync_body_def Let_def cong: sum.case_cong prod.case_cong if_cong)

text \<open>The seal leaves the key, the root and everything in the store but the tick.\<close>

lemma cleanEpoch_frame:
  assumes "cleanEpoch f s = (r, s')"
  shows "pubKey (volume s') = pubKey (volume s)"
    and "root_inode (volume s') = root_inode (volume s)"
    and "store s' = store s \<or> store s' = (store s)\<lparr>Epoch := Epoch (store s) + 1\<rparr>"
    and "events s' = events s \<or> events s' = events s @ [TxUpdate, TxCommit]
         \<or> events s' = events s @ [TxUpdate, TxRollback]"
proof -
  show "pubKey (volume s') = pubKey (volume s)" "root_inode (volume s') = root_inode (volume s)"
    "store s' = store s \<or> store s' = (store s)\<lparr>Epoch := Epoch (store s) + 1\<rparr>"
    "events s' = events s \<or> events s' = events s @ [TxUpdate, TxCommit]
         \<or> events s' = events s @ [TxUpdate, TxRollback]"
    using assms
    by (cases "dirty (volume s)"; cases f; auto simp: cleanEpoch_dirty_cases cleanEpoch_clean)+
qed

text \<open>The whole of \<open>SyncSend\<close>, by what the seal and the read transaction do.\<close>

lemma SyncSend_unfold:
  "SyncSend fu fv send p s =
     (case cleanEpoch fu (log MuLock s) of
        (Inl err, s2) \<Rightarrow> (Inl err, log MuUnlock s2)
      | (Inr t, s2) \<Rightarrow>
        (case fv of
           BeginFails e \<Rightarrow> (Inl e, log MuUnlock s2)
         | _ \<Rightarrow>
           (case sync_body (store s2) send (volume s2) (cleaned p) of
              (r, sent) \<Rightarrow>
                ((case r of Inl e \<Rightarrow> Inl e
                  | Inr _ \<Rightarrow> (case fv of EndFails e \<Rightarrow> Inl e | _ \<Rightarrow> Inr ())),
                 s2\<lparr>events := events s2 @ [TxView, MuUnlock] @ map Send sent @ [TxClose]\<rparr>))))"
  by (cases fv)
     (auto simp: SyncSend_def db_View_def sync_def deferred_def log_def Let_def cleaned_def
           split: prod.splits sum.splits)

subsection \<open>What a call returns and delivers\<close>

lemma sent_msgs_append [simp]: "sent_msgs (a @ b) = sent_msgs a @ sent_msgs b"
  by (simp add: sent_msgs_def)

lemma sent_msgs_Send [simp]: "sent_msgs (map Send ms) = ms"
  by (induction ms) (simp_all add: sent_msgs_def)

lemma sent_msgs_Cons [simp]:
  "sent_msgs (e # es) = (case e of Send m \<Rightarrow> [m] | _ \<Rightarrow> []) @ sent_msgs es"
  by (simp add: sent_msgs_def)

lemma sent_msgs_Nil [simp]: "sent_msgs [] = []"
  by (simp add: sent_msgs_def)

lemma cleanEpoch_sent:
  "sent_msgs (events (snd (cleanEpoch f s))) = sent_msgs (events s)"
  using cleanEpoch_frame(4) [of f s "fst (cleanEpoch f s)" "snd (cleanEpoch f s)"]
  by auto

lemma cleanEpoch_body:
  "sync_body (store (snd (cleanEpoch f s))) send (volume (snd (cleanEpoch f s))) p =
   sync_body (store s) send (volume s) p"
proof -
  obtain r s' where c: "cleanEpoch f s = (r, s')" by (cases "cleanEpoch f s")
  note fr = cleanEpoch_frame [OF c]
  have "sync_body (store s') send (volume s') p = sync_body (store s) send (volume s') p"
    using fr(3) by auto
  also have "\<dots> = sync_body (store s) send (volume s) p"
    using fr(1,2) by (rule sync_body_volume)
  finally show ?thesis using c by simp
qed

text \<open>A call either never runs the closure, and delivers nothing, or delivers what the body sends.\<close>

lemma SyncSend_delivered:
  "delivered s (snd (SyncSend fu fv send p s)) = [] \<or>
   delivered s (snd (SyncSend fu fv send p s)) =
     snd (sync_body (store s) send (volume s) (cleaned p))"
proof -
  obtain r s2 where c: "cleanEpoch fu (log MuLock s) = (r, s2)"
    by (cases "cleanEpoch fu (log MuLock s)")
  have se: "sent_msgs (events s2) = sent_msgs (events s)"
    using cleanEpoch_sent [of fu "log MuLock s"] c by (simp add: log_def)
  have b: "sync_body (store s2) send (volume s2) (cleaned p) =
           sync_body (store s) send (volume s) (cleaned p)"
    using cleanEpoch_body [of fu "log MuLock s" send "cleaned p"] c by (simp add: log_def)
  show ?thesis
    unfolding SyncSend_unfold c
    by (cases r; cases fv; cases "sync_body (store s) send (volume s) (cleaned p)")
       (simp_all add: delivered_def log_def se b)
qed

lemma cleanEpoch_NoFault_Inr: "\<exists>t. fst (cleanEpoch NoFault s) = Inr t"
  by (cases "dirty (volume s)") (simp_all add: cleanEpoch_dirty_cases cleanEpoch_clean)

text \<open>When the store does not fail, the call returns what the body returns and delivers what it sends.\<close>

lemma SyncSend_NoFault:
  "fst (SyncSend NoFault NoFault send p s) = fst (sync_body (store s) send (volume s) (cleaned p))"
  "delivered s (snd (SyncSend NoFault NoFault send p s)) =
     snd (sync_body (store s) send (volume s) (cleaned p))"
proof -
  obtain r s2 where c: "cleanEpoch NoFault (log MuLock s) = (r, s2)"
    by (cases "cleanEpoch NoFault (log MuLock s)")
  obtain t where r: "r = Inr t"
    using cleanEpoch_NoFault_Inr [of "log MuLock s"] c by auto
  have se: "sent_msgs (events s2) = sent_msgs (events s)"
    using cleanEpoch_sent [of NoFault "log MuLock s"] c by (simp add: log_def)
  have b: "sync_body (store s2) send (volume s2) (cleaned p) =
           sync_body (store s) send (volume s) (cleaned p)"
    using cleanEpoch_body [of NoFault "log MuLock s" send "cleaned p"] c by (simp add: log_def)
  show "fst (SyncSend NoFault NoFault send p s) = fst (sync_body (store s) send (volume s) (cleaned p))"
    unfolding SyncSend_unfold c r
    by (cases "sync_body (store s) send (volume s) (cleaned p)")
       (auto simp: b split: sum.splits)
  show "delivered s (snd (SyncSend NoFault NoFault send p s)) =
     snd (sync_body (store s) send (volume s) (cleaned p))"
    unfolding SyncSend_unfold c r
    by (cases "sync_body (store s) send (volume s) (cleaned p)")
       (simp add: delivered_def se b)
qed

lemma SyncSend_store:
  "store (snd (SyncSend fu fv send p s)) = store (snd (cleanEpoch fu (log MuLock s)))"
  unfolding SyncSend_unfold
  by (cases "cleanEpoch fu (log MuLock s)"; cases fv;
      cases "sync_body (store (snd (cleanEpoch fu (log MuLock s)))) send
               (volume (snd (cleanEpoch fu (log MuLock s)))) (cleaned p)")
     (auto simp: log_def split: sum.splits)

subsection \<open>The claims on the epoch of a volume just opened and on the mutex\<close>

text \<open>
  C10. \<open>Open\<close> returns the volume dirty, whatever the store holds. So the first seal on
  it goes through the write transaction: when the store does not fail it returns the
  persisted tick plus one and leaves that value persisted, and whenever it returns a
  tick at all, that tick is the persisted tick plus one, now persisted, with one write
  transaction begun. The same holds for the seal inside the first \<open>SyncSend\<close>. No call
  of \<open>dirtyEpoch\<close> is needed for this. (Plus one is that of \<^verbatim>\<open>uint64\<close>.)
\<close>

theorem Open_dirty_first_seal_advances:
  "Open f db pk = Inr s \<Longrightarrow>
     dirty (volume s) \<and> store s = db \<and>
     (\<exists>s'. cleanEpoch NoFault s = (Inr (Epoch db + 1), s') \<and> Epoch (store s') = Epoch db + 1) \<and>
     (\<forall>g t s'. cleanEpoch g s = (Inr t, s') \<longrightarrow>
         t = Epoch db + 1 \<and> Epoch (store s') = Epoch db + 1 \<and> updates s' = Suc (updates s)) \<and>
     (\<forall>fv send p. Epoch (store (snd (SyncSend NoFault fv send p s))) = Epoch db + 1)"
proof -
  assume o: "Open f db pk = Inr s"
  then have d: "dirty (volume s)" and st: "store s = db"
    using Open_ok by blast+
  have a: "\<exists>s'. cleanEpoch NoFault s = (Inr (Epoch db + 1), s') \<and> Epoch (store s') = Epoch db + 1"
    using cleanEpoch_dirty_cases [OF d, of NoFault] st by simp
  have b: "\<forall>g t s'. cleanEpoch g s = (Inr t, s') \<longrightarrow>
         t = Epoch db + 1 \<and> Epoch (store s') = Epoch db + 1 \<and> updates s' = Suc (updates s)"
    using cleanEpoch_Inr_dirty [OF d] st by blast
  have d': "dirty (volume (log MuLock s))" using d by (simp add: log_def)
  have c: "\<forall>fv send p. Epoch (store (snd (SyncSend NoFault fv send p s))) = Epoch db + 1"
    using cleanEpoch_dirty_cases [OF d', of NoFault] st
    by (simp add: SyncSend_store log_def)
  show ?thesis using d st a b c by blast
qed

theorem Open_dirty_first_seal_witness:
  "Open NoFault db0 key0 = Inr sys0 \<and> dirty (volume sys0) \<and> Epoch db0 = 7 \<and>
   cleanEpoch NoFault sys0 = (Inr 8, sys1) \<and> Epoch (store sys1) = 8 \<and>
   updates sys0 = 0 \<and> updates sys1 = 1 \<and>
   Epoch (store (snd (SyncSend NoFault NoFault accept [] sys0))) = 8"
proof -
  note t = Open_dirty_first_seal_advances [OF Open_db0]
  have 1: "dirty (volume sys0)" using t by blast
  have 2: "Epoch (store (snd (SyncSend NoFault NoFault accept [] sys0))) = Epoch db0 + 1"
    using t by blast
  have 3: "Epoch db0 = 7" "Epoch (store sys1) = 8" "updates sys0 = 0" "updates sys1 = 1"
    by (simp_all add: db0_def sys0_def sys1_def updates_def)
  show ?thesis using 1 2 3 Open_db0 cleanEpoch_sys0 by simp
qed

text \<open>
  C3, as the code has it. In every execution of \<open>SyncSend\<close> the log grows by: the lock;
  the events of the seal (nothing, or a write transaction committed or rolled back);
  then, when the seal failed or the read transaction could not begin, the deferred
  unlock alone; otherwise the opening of the read transaction, the unlock right after
  it, the messages handed to the sink, and the end of the transaction. The mutex is
  thus released after the tick is sealed and as the first step inside the read
  transaction, after that transaction has been opened: it is held while the snapshot is
  opened, and it is not held during the rest of the transaction, in which the closure
  reads the snapshot and calls the sink.
\<close>

theorem SyncSend_unlocks_inside_view:
  "\<exists>seal.
     seal \<in> {[], [TxUpdate, TxCommit], [TxUpdate, TxRollback]} \<and>
     events (snd (SyncSend fu fv send p s)) =
       events s @ MuLock # seal @
         (if isl (fst (cleanEpoch fu (log MuLock s))) \<or> (\<exists>e. fv = BeginFails e)
          then [MuUnlock]
          else [TxView, MuUnlock] @
               map Send (delivered s (snd (SyncSend fu fv send p s))) @ [TxClose])"
proof -
  obtain r s2 where c: "cleanEpoch fu (log MuLock s) = (r, s2)"
    by (cases "cleanEpoch fu (log MuLock s)")
  obtain seal where ev: "events s2 = events s @ MuLock # seal"
    and seal: "seal \<in> {[], [TxUpdate, TxCommit], [TxUpdate, TxRollback]}"
    using cleanEpoch_frame(4) [OF c] by (auto simp: log_def)
  have se: "sent_msgs seal = []"
    using seal by auto
  obtain r' sent where b: "sync_body (store s2) send (volume s2) (cleaned p) = (r', sent)"
    by (cases "sync_body (store s2) send (volume s2) (cleaned p)")
  have "events (snd (SyncSend fu fv send p s)) =
       events s @ MuLock # seal @
         (if isl (fst (cleanEpoch fu (log MuLock s))) \<or> (\<exists>e. fv = BeginFails e)
          then [MuUnlock]
          else [TxView, MuUnlock] @
               map Send (delivered s (snd (SyncSend fu fv send p s))) @ [TxClose])"
    unfolding SyncSend_unfold c
    by (cases r; cases fv) (simp_all add: b ev se log_def delivered_def)
  then show ?thesis using seal by blast
qed

text \<open>
  C3 as stated fails: on a clean volume with an empty root, the read transaction is
  opened while the mutex is still held; the unlock is the next event.
\<close>

theorem SyncSend_view_opened_under_lock:
  "events (snd (SyncSend NoFault NoFault accept [] sys1)) =
     events sys1 @ [MuLock, TxView, MuUnlock,
       Send \<lparr>Peers = Some [0 \<mapsto> key0], Children = [], Error = None\<rparr>, TxClose] \<and>
   \<not> view_unlocked False (events (snd (SyncSend NoFault NoFault accept [] sys1)))"
proof -
  have c: "cleaned [] = []"
    by (simp add: cleaned_def path_Clean_def)
  have b: "sync_body (store sys1) accept (volume sys1) [] =
     (Inr (), [\<lparr>Peers = Some [0 \<mapsto> key0], Children = [], Error = None\<rparr>])"
    by (simp add: sync_body_def walk.simps sys1_def db0_def accept_def)
  have ce: "cleanEpoch NoFault (log MuLock sys1) = (Inr 8, log MuLock sys1)"
    by (simp add: cleanEpoch_clean log_def sys1_def)
  have e: "events (snd (SyncSend NoFault NoFault accept [] sys1)) =
     events sys1 @ [MuLock, TxView, MuUnlock,
       Send \<lparr>Peers = Some [0 \<mapsto> key0], Children = [], Error = None\<rparr>, TxClose]"
    unfolding SyncSend_unfold c ce
    by (simp add: log_def b)
  show ?thesis unfolding e by (simp add: sys1_def)
qed

subsection \<open>The claims on the resolution of the path\<close>

text \<open>An invariant of the messages through the loop over the children.\<close>

lemma children_invariant:
  assumes "P msg" and "\<forall>m\<in>set sent. P m" and "P Reset"
    and add: "\<And>m de. P m \<Longrightarrow> P (m\<lparr>Children := Children m @ [de]\<rparr>)"
  shows "(\<forall>m\<in>set (snd (children tx send i items msg sent)). P m) \<and>
         (\<forall>msg'. fst (children tx send i items msg sent) = Inr msg' \<longrightarrow> P msg')"
  using assms(1,2)
proof (induction items arbitrary: msg sent)
  case Nil
  then show ?case by simp
next
  case (Cons item items)
  show ?case
  proof (cases "make_child tx i item")
    case (Inl e)
    then show ?thesis using Cons.prems by simp
  next
    case (Inr de)
    let ?m = "msg\<lparr>Children := Children msg @ [de]\<rparr>"
    have pm: "P ?m" using add Cons.prems(1) by blast
    have ps: "\<forall>m\<in>set (sent @ [?m]). P m" using pm Cons.prems(2) by simp
    show ?thesis
      using Inr Cons.IH [OF pm Cons.prems(2)] Cons.IH [OF assms(3) ps] pm Cons.prems(2)
      by (auto simp: Let_def split: sum.splits)
  qed
qed

lemma sync_body_walk_fails:
  "walk tx (root_inode v) None q = Inl e \<Longrightarrow> sync_body tx send v q = (Inl e, [])"
  by (simp add: sync_body_def)

lemma sync_body_not_dir:
  "walk tx (root_inode v) None q = Inr (i, Some de) \<Longrightarrow> Dir de = None \<Longrightarrow>
     sync_body tx send v q = (send [] not_a_directory, [not_a_directory])"
  by (cases "send [] not_a_directory") (simp_all add: sync_body_def not_a_directory_def)

lemma sync_body_dir_no_error:
  assumes "walk tx (root_inode v) None q = Inr (i, d)" and "d = None \<or> Dir (the d) \<noteq> None"
  shows "\<forall>m\<in>set (snd (sync_body tx send v q)). Error m = None"
proof -
  let ?m0 = "\<lparr>Peers = Some (roster (tx_Peers tx) [0 \<mapsto> pubKey v]), Children = [], Error = None\<rparr>"
  have inv: "(\<forall>m\<in>set (snd (children tx send i (Dirs_List tx i) ?m0 [])). Error m = None) \<and>
         (\<forall>msg'. fst (children tx send i (Dirs_List tx i) ?m0 []) = Inr msg' \<longrightarrow> Error msg' = None)"
    by (rule children_invariant) (simp_all add: Reset_def)
  obtain r sent where c: "children tx send i (Dirs_List tx i) ?m0 [] = (r, sent)"
    by (cases "children tx send i (Dirs_List tx i) ?m0 []")
  show ?thesis
    using assms inv unfolding c
    by (cases r) (auto simp: sync_body_def c Let_def split: sum.splits)
qed

text \<open>
  C4. When the segments of the path resolve, from the root, to an entry that is not a
  directory, the sink is called exactly once, with the message whose error is
  \<open>NOT_A_DIRECTORY\<close> and which has no children and no roster, and \<open>SyncSend\<close> returns
  what the sink answered: success when the sink accepts the message. (The store is
  taken not to fail in the seal and in the read transaction.)
\<close>

theorem SyncSend_file_not_a_directory:
  assumes "resolve (store s) (root_inode (volume s)) None (segments p) = Inr (i, Some de)"
    and "Dir de = None"
  shows "delivered s (snd (SyncSend NoFault NoFault send p s)) = [not_a_directory] \<and>
         fst (SyncSend NoFault NoFault send p s) = send [] not_a_directory \<and>
         (send [] not_a_directory = Inr () \<longrightarrow> fst (SyncSend NoFault NoFault send p s) = Inr ()) \<and>
         Error not_a_directory = Some NOT_A_DIRECTORY \<and> Children not_a_directory = [] \<and>
         Peers not_a_directory = None"
proof -
  have w: "walk (store s) (root_inode (volume s)) None (cleaned p) = Inr (i, Some de)"
    using assms(1) by (simp add: walk_refines)
  show ?thesis
    using sync_body_not_dir [OF w assms(2), of send]
    by (simp add: SyncSend_NoFault not_a_directory_def)
qed

text \<open>
  C5. When the segments of the path are \<open>pre\<close>, then \<open>seg\<close>, then \<open>post\<close>, the segments
  \<open>pre\<close> resolve from the root to an inode, and the lookup of \<open>seg\<close> under that inode
  fails, \<open>SyncSend\<close> returns the error of that lookup, and under every behaviour of the
  store the sink is not called.
\<close>

theorem SyncSend_unresolved_segment:
  assumes "segments p = pre @ seg # post"
    and "resolve (store s) (root_inode (volume s)) None pre = Inr (i, d)"
    and "Dirs_Get (store s) i seg = Inl e"
  shows "fst (SyncSend NoFault NoFault send p s) = Inl e \<and>
         (\<forall>fu fv. delivered s (snd (SyncSend fu fv send p s)) = [])"
proof -
  have "resolve (store s) (root_inode (volume s)) None (segments p) = Inl e"
    using assms by (simp add: resolve_append)
  then have w: "walk (store s) (root_inode (volume s)) None (cleaned p) = Inl e"
    by (simp add: walk_refines)
  show ?thesis
    using sync_body_walk_fails [OF w, of send] SyncSend_delivered [of s _ _ send p]
    by (auto simp: SyncSend_NoFault)
qed

text \<open>
  C9. The loop of \<open>SyncSend\<close> over the cleaned path does what the walk of the spec does
  over the segments of the path: it looks each segment up under the current inode and
  goes on from the inode of the entry found. In particular, after a segment that is
  found the walk continues from that entry's inode, with no condition on the entry being
  a file or a directory. The check for a directory is made once, on the entry the walk
  ends at: the message \<open>NOT_A_DIRECTORY\<close> is what is sent exactly when that last entry is
  not a directory.
\<close>

theorem walk_descends_any_entry:
  "walk tx i d (cleaned p) = resolve tx i d (segments p) \<and>
   (\<forall>seg de rest. Dirs_Get tx i seg = Inr de \<and> CHR ''/'' \<notin> set seg \<longrightarrow>
      walk tx i d (seg @ CHR ''/'' # rest) = walk tx (Inode de) (Some de) rest) \<and>
   (\<forall>j de. walk tx (root_inode v) None q = Inr (j, Some de) \<longrightarrow>
      (snd (sync_body tx send v q) = [not_a_directory]) = (Dir de = None))"
proof -
  have a: "\<forall>seg de rest. Dirs_Get tx i seg = Inr de \<and> CHR ''/'' \<notin> set seg \<longrightarrow>
      walk tx i d (seg @ CHR ''/'' # rest) = walk tx (Inode de) (Some de) rest"
    by (simp add: walk_first)
  have b: "(snd (sync_body tx send v q) = [not_a_directory]) = (Dir de = None)"
    if w: "walk tx (root_inode v) None q = Inr (j, Some de)" for j de
  proof (cases "Dir de = None")
    case True
    then show ?thesis using sync_body_not_dir [OF w True, of send] by simp
  next
    case False
    then have "\<forall>m\<in>set (snd (sync_body tx send v q)). Error m = None"
      using sync_body_dir_no_error [OF w] by simp
    then have "snd (sync_body tx send v q) \<noteq> [not_a_directory]"
      by (auto simp: not_a_directory_def)
    then show ?thesis using False by simp
  qed
  show ?thesis using a b by (simp add: walk_refines)
qed


lemma resolve_f: "resolve (store sysT) (root_inode (volume sysT)) None (segments ''f'') = Inr (5, Some file5)"
  by (simp add: segments_def sysT_def dbT_def InodeRoot_def file5_def)

theorem SyncSend_file_witness:
  "resolve (store sysT) (root_inode (volume sysT)) None (segments ''f'') = Inr (5, Some file5) \<and>
   Dir file5 = None \<and>
   fst (SyncSend NoFault NoFault accept ''f'' sysT) = Inr () \<and>
   delivered sysT (snd (SyncSend NoFault NoFault accept ''f'' sysT)) = [not_a_directory]"
proof -
  have d: "Dir file5 = None" by (simp add: file5_def)
  have a: "accept [] not_a_directory = Inr ()" by (simp add: accept_def)
  show ?thesis
    using SyncSend_file_not_a_directory [of sysT "''f''" 5 file5 accept, OF resolve_f d]
      resolve_f d a
    by simp
qed

theorem SyncSend_unresolved_witness:
  "segments ''d/nope/deeper'' = [''d''] @ ''nope'' # [''deeper''] \<and>
   resolve (store sysT) (root_inode (volume sysT)) None [''d''] = Inr (6, Some dir6) \<and>
   Dirs_Get (store sysT) 6 ''nope'' = Inl (ErrExt ''ENOENT'') \<and>
   fst (SyncSend NoFault NoFault accept ''d/nope/deeper'' sysT) = Inl (ErrExt ''ENOENT'') \<and>
   delivered sysT (snd (SyncSend NoFault NoFault accept ''d/nope/deeper'' sysT)) = []"
proof -
  have 1: "segments ''d/nope/deeper'' = [''d''] @ ''nope'' # [''deeper'']"
    by (simp add: segments_def)
  have 2: "resolve (store sysT) (root_inode (volume sysT)) None [''d''] = Inr (6, Some dir6)"
    by (simp add: sysT_def dbT_def InodeRoot_def dir6_def)
  have 3: "Dirs_Get (store sysT) 6 ''nope'' = Inl (ErrExt ''ENOENT'')"
    by (simp add: sysT_def dbT_def)
  show ?thesis
    using SyncSend_unresolved_segment [of "''d/nope/deeper''" "[''d'']" "''nope''" "[''deeper'']" sysT 6 "Some dir6"
        "ErrExt ''ENOENT''" accept, OF 1 2 3] 1 2 3
    by simp
qed

theorem walk_descends_witness:
  "Dirs_Get dbT InodeRoot ''f'' = Inr file5 \<and> Dir file5 = None \<and>
   segments ''f/x'' = [''f'', ''x''] \<and>
   walk dbT InodeRoot None (cleaned ''f/x'') = Inr (9, Some dir9) \<and>
   walk dbT InodeRoot None (''f'' @ CHR ''/'' # ''x'') = walk dbT (Inode file5) (Some file5) ''x'' \<and>
   snd (sync_body dbT accept (volume sysT) ''f'') = [not_a_directory] \<and>
   snd (sync_body dbT accept (volume sysT) ''f/x'') \<noteq> [not_a_directory]"
proof -
  have g: "Dirs_Get dbT InodeRoot ''f'' = Inr file5"
    by (simp add: dbT_def InodeRoot_def)
  have d: "Dir file5 = None" "Dir dir9 \<noteq> None" by (simp_all add: file5_def dir9_def)
  have s: "segments ''f/x'' = [''f'', ''x'']" by (simp add: segments_def)
  have c: "cleaned ''f/x'' = ''f/x''" by (simp add: cleaned_segments s)
  have r: "resolve dbT InodeRoot None [''f'', ''x''] = Inr (9, Some dir9)"
    by (simp add: dbT_def InodeRoot_def file5_def dir9_def)
  have wf: "walk dbT (root_inode (volume sysT)) None ''f'' = Inr (5, Some file5)"
    by (simp add: walk_last sysT_def dbT_def InodeRoot_def file5_def)
  note t1 = walk_descends_any_entry [of dbT InodeRoot None "''f/x''" "volume sysT" "''f''" accept]
  note t2 = walk_descends_any_entry [of dbT InodeRoot None "''f/x''" "volume sysT" "''f/x''" accept]
  have w: "walk dbT InodeRoot None (cleaned ''f/x'') = Inr (9, Some dir9)"
    using t1 s r by simp
  have w': "walk dbT (root_inode (volume sysT)) None ''f/x'' = Inr (9, Some dir9)"
    using w c by (simp add: sysT_def)
  have a: "Dirs_Get dbT InodeRoot seg = Inr de \<Longrightarrow> CHR ''/'' \<notin> set seg \<Longrightarrow>
      walk dbT InodeRoot None (seg @ CHR ''/'' # rest) = walk dbT (Inode de) (Some de) rest"
    for seg de rest
    using t1 by blast
  have i: "walk dbT InodeRoot None (''f'' @ CHR ''/'' # ''x'') = walk dbT (Inode file5) (Some file5) ''x''"
    by (rule a [OF g]) simp
  have n1: "snd (sync_body dbT accept (volume sysT) ''f'') = [not_a_directory]"
    using t1 wf d by simp
  have n2: "snd (sync_body dbT accept (volume sysT) ''f/x'') \<noteq> [not_a_directory]"
    using t2 w' d by simp
  show ?thesis using g d s w i n1 n2 by simp
qed

subsection \<open>The claim on the roster\<close>

lemma roster_other:
  "(\<forall>q\<in>set ps. IsAllowed q \<longrightarrow> peer_ID q \<noteq> k) \<Longrightarrow> roster ps m k = m k"
  by (induction ps arbitrary: m) auto

lemma roster_entry:
  "roster ps m k = Some v \<Longrightarrow>
     m k = Some v \<or> (\<exists>q\<in>set ps. IsAllowed q \<and> peer_ID q = k \<and> peer_Pub q = v)"
proof (induction ps arbitrary: m)
  case Nil
  then show ?case by simp
next
  case (Cons a ps)
  show ?case
  proof (cases "IsAllowed a")
    case True
    then have "roster ps (m(peer_ID a \<mapsto> peer_Pub a)) k = Some v"
      using Cons.prems by simp
    from Cons.IH [OF this] show ?thesis
      using True by (auto split: if_splits)
  next
    case False
    then show ?thesis using Cons by auto
  qed
qed

lemma sync_body_rosters:
  "\<forall>m\<in>set (snd (sync_body tx send v q)).
     Peers m = None \<or> Peers m = Some (roster (tx_Peers tx) [0 \<mapsto> pubKey v])"
proof -
  let ?r = "roster (tx_Peers tx) [0 \<mapsto> pubKey v]"
  let ?P = "\<lambda>m. Peers m = None \<or> Peers m = Some ?r"
  let ?m0 = "\<lparr>Peers = Some ?r, Children = [], Error = None\<rparr>"
  have inv: "(\<forall>m\<in>set (snd (children tx send i (Dirs_List tx i) ?m0 [])). ?P m) \<and>
         (\<forall>msg'. fst (children tx send i (Dirs_List tx i) ?m0 []) = Inr msg' \<longrightarrow> ?P msg')" for i
    by (rule children_invariant) (simp_all add: Reset_def)
  show ?thesis
  proof (cases "walk tx (root_inode v) None q")
    case (Inl e)
    then show ?thesis by (simp add: sync_body_def)
  next
    case (Inr a)
    obtain i d where a: "a = (i, d)" by (cases a)
    obtain r sent where c: "children tx send i (Dirs_List tx i) ?m0 [] = (r, sent)"
      by (cases "children tx send i (Dirs_List tx i) ?m0 []")
    show ?thesis
      using inv [of i] unfolding c
      by (cases r) (auto simp: sync_body_def Inr a c Let_def split: sum.splits)
  qed
qed

text \<open>
  C8. Take any message that a call of \<open>SyncSend\<close> hands to the sink and that carries a
  roster, under any behaviour of the store and of the sink, on a store whose peers have
  distinct ids, none of them the reserved id 0. The roster maps id 0 to the public key of
  the volume; it has no entry under the id of a peer that is not allowed to see the
  volume; and each of its entries is id 0 with the local key, or the id and the public
  key of a peer that is allowed.
\<close>

theorem roster_local_key_and_allowed_peers:
  assumes "m \<in> set (delivered s (snd (SyncSend fu fv send p s)))" and "Peers m = Some r"
    and "\<forall>q\<in>set (tx_Peers (store s)). peer_ID q \<noteq> 0"
    and "distinct (map peer_ID (tx_Peers (store s)))"
  shows "r 0 = Some (pubKey (volume s)) \<and>
         (\<forall>q\<in>set (tx_Peers (store s)). \<not> IsAllowed q \<longrightarrow> r (peer_ID q) = None) \<and>
         (\<forall>k v. r k = Some v \<longrightarrow>
            (k = 0 \<and> v = pubKey (volume s)) \<or>
            (\<exists>q\<in>set (tx_Peers (store s)). IsAllowed q \<and> peer_ID q = k \<and> peer_Pub q = v))"
proof -
  let ?ps = "tx_Peers (store s)"
  have "m \<in> set (snd (sync_body (store s) send (volume s) (cleaned p)))"
    using assms(1) SyncSend_delivered [of s fu fv send p] by auto
  then have r: "r = roster ?ps [0 \<mapsto> pubKey (volume s)]"
    using sync_body_rosters assms(2) by fastforce
  have 1: "r 0 = Some (pubKey (volume s))"
    unfolding r using assms(3) by (subst roster_other) auto
  have 2: "r (peer_ID q) = None" if q: "q \<in> set ?ps" and n: "\<not> IsAllowed q" for q
  proof -
    have "\<forall>q'\<in>set ?ps. IsAllowed q' \<longrightarrow> peer_ID q' \<noteq> peer_ID q"
      using assms(4) q n by (metis distinct_map inj_onD)
    then have "r (peer_ID q) = [0 \<mapsto> pubKey (volume s)] (peer_ID q)"
      unfolding r by (rule roster_other)
    then show ?thesis using assms(3) q by simp
  qed
  have 3: "(k = 0 \<and> v = pubKey (volume s)) \<or>
            (\<exists>q\<in>set ?ps. IsAllowed q \<and> peer_ID q = k \<and> peer_Pub q = v)"
    if "r k = Some v" for k v
    using roster_entry [of ?ps "[0 \<mapsto> pubKey (volume s)]" k v] that unfolding r
    by (auto split: if_splits)
  show ?thesis using 1 2 3 by blast
qed

lemma sync_body_root_sysT:
  "sync_body dbT accept (volume sysT) [] =
     (Inr (), [\<lparr>Peers = Some (roster peers0 [0 \<mapsto> key0]),
        Children = [\<lparr>wp_Name = ''d'', wp_File = None, wp_Dir = Some (), wp_Clock = ''clock''\<rparr>,
                    \<lparr>wp_Name = ''f'', wp_File = Some \<lparr>Manifest = ''manifest of f''\<rparr>,
                      wp_Dir = None, wp_Clock = ''clock''\<rparr>],
        Error = None\<rparr>])"
  by (simp add: sync_body_def walk.simps sysT_def dbT_def InodeRoot_def accept_def
      make_child_def maxBatch_def dir6_def file5_def)

theorem roster_witness:
  "Peers (hd (delivered sysT (snd (SyncSend NoFault NoFault accept [] sysT)))) =
     Some (roster peers0 [0 \<mapsto> key0]) \<and>
   distinct (map peer_ID (tx_Peers (store sysT))) \<and>
   roster peers0 [0 \<mapsto> key0] 0 = Some key0 \<and>
   roster peers0 [0 \<mapsto> key0] 1 = Some ''key of peer 1'' \<and>
   roster peers0 [0 \<mapsto> key0] 2 = None \<and>
   roster peers0 [0 \<mapsto> key0] 3 = Some ''key of peer 3''"
proof -
  have c: "cleaned [] = []" by (simp add: cleaned_def path_Clean_def)
  have d: "delivered sysT (snd (SyncSend NoFault NoFault accept [] sysT)) =
      snd (sync_body dbT accept (volume sysT) [])"
    by (simp add: SyncSend_NoFault c) (simp add: sysT_def)
  let ?m = "hd (delivered sysT (snd (SyncSend NoFault NoFault accept [] sysT)))"
  have m: "?m \<in> set (delivered sysT (snd (SyncSend NoFault NoFault accept [] sysT)))"
    unfolding d sync_body_root_sysT by simp
  have p: "Peers ?m = Some (roster peers0 [0 \<mapsto> key0])"
    unfolding d sync_body_root_sysT by simp
  have n: "\<forall>q\<in>set (tx_Peers (store sysT)). peer_ID q \<noteq> 0"
    by (simp add: sysT_def dbT_def peers0_def)
  have di: "distinct (map peer_ID (tx_Peers (store sysT)))"
    by (simp add: sysT_def dbT_def peers0_def)
  note t = roster_local_key_and_allowed_peers [OF m p n di]
  have k: "pubKey (volume sysT) = key0" by (simp add: sysT_def)
  have 0: "roster peers0 [0 \<mapsto> key0] 0 = Some key0" using t k by simp
  have q2: "\<lparr>peer_ID = 2, peer_Pub = ''key of peer 2'', IsAllowed = False\<rparr> \<in> set (tx_Peers (store sysT))"
    by (simp add: sysT_def dbT_def peers0_def)
  have 2: "roster peers0 [0 \<mapsto> key0] 2 = None" using t q2 by fastforce
  have 13: "roster peers0 [0 \<mapsto> key0] 1 = Some ''key of peer 1''"
    "roster peers0 [0 \<mapsto> key0] 3 = Some ''key of peer 3''"
    by (simp_all add: peers0_def)
  show ?thesis using p di 0 2 13 by simp
qed

subsection \<open>The claim on the batches\<close>

lemma make_child_child: "\<not> isl (make_child tx i item) \<Longrightarrow> make_child tx i item = Inr (child tx i item)"
  by (cases "make_child tx i item") (simp_all add: child_def)

text \<open>While the message stays within the threshold, the loop only appends.\<close>

lemma children_fill:
  assumes "\<forall>item\<in>set items. \<not> isl (make_child tx i item)"
    and "length (Children msg) + length items \<le> maxBatch"
  shows "children tx send i items msg sent =
           (Inr (msg\<lparr>Children := Children msg @ map (child tx i) items\<rparr>), sent)"
  using assms
proof (induction items arbitrary: msg)
  case Nil
  then show ?case by simp
next
  case (Cons item items)
  have mc: "make_child tx i item = Inr (child tx i item)"
    using Cons.prems(1) by (simp add: make_child_child)
  let ?m = "msg\<lparr>Children := Children msg @ [child tx i item]\<rparr>"
  have "children tx send i items ?m sent =
           (Inr (?m\<lparr>Children := Children ?m @ map (child tx i) items\<rparr>), sent)"
    using Cons.prems by (intro Cons.IH) auto
  then show ?case using Cons.prems(2) by (simp add: mc Let_def)
qed

text \<open>The item that takes the message over the threshold makes the loop flush it.\<close>

lemma children_flush:
  assumes "\<forall>item\<in>set items1. \<not> isl (make_child tx i item)"
    and "length (Children msg) + length items1 = Suc maxBatch"
    and "items1 \<noteq> []"
    and "send sent (msg\<lparr>Children := Children msg @ map (child tx i) items1\<rparr>) = Inr ()"
  shows "children tx send i (items1 @ items2) msg sent =
           children tx send i items2 Reset
             (sent @ [msg\<lparr>Children := Children msg @ map (child tx i) items1\<rparr>])"
  using assms
proof (induction items1 arbitrary: msg)
  case Nil
  then show ?case by simp
next
  case (Cons item items)
  have mc: "make_child tx i item = Inr (child tx i item)"
    using Cons.prems(1) by (simp add: make_child_child)
  let ?m = "msg\<lparr>Children := Children msg @ [child tx i item]\<rparr>"
  show ?case
  proof (cases "items = []")
    case True
    then show ?thesis using Cons.prems by (simp add: mc Let_def)
  next
    case False
    have le: "\<not> length (Children ?m) > maxBatch" using Cons.prems(2) False by (cases items) auto
    have "children tx send i (items @ items2) ?m sent =
           children tx send i items2 Reset
             (sent @ [?m\<lparr>Children := Children ?m @ map (child tx i) items\<rparr>])"
      using Cons.prems False by (intro Cons.IH) auto
    then show ?thesis using le by (simp add: mc Let_def)
  qed
qed


text \<open>With children that all convert and a sink that accepts, nothing is lost or reordered.\<close>

lemma children_concat:
  assumes "\<forall>item\<in>set items. \<not> isl (make_child tx i item)" and "\<forall>h m. send h m = Inr ()"
  shows "\<exists>msg' sent'. children tx send i items msg sent = (Inr msg', sent') \<and>
           concat (map Children sent') @ Children msg' =
             concat (map Children sent) @ Children msg @ map (child tx i) items"
  using assms(1)
proof (induction items arbitrary: msg sent)
  case Nil
  then show ?case by simp
next
  case (Cons item items)
  have mc: "make_child tx i item = Inr (child tx i item)"
    using Cons.prems(1) by (simp add: make_child_child)
  have ok: "\<forall>item\<in>set items. \<not> isl (make_child tx i item)" using Cons.prems by simp
  let ?m = "msg\<lparr>Children := Children msg @ [child tx i item]\<rparr>"
  show ?case
  proof (cases "length (Children ?m) > maxBatch")
    case True
    obtain msg' sent' where
      "children tx send i items Reset (sent @ [?m]) = (Inr msg', sent')"
      "concat (map Children sent') @ Children msg' =
         concat (map Children (sent @ [?m])) @ Children Reset @ map (child tx i) items"
      using Cons.IH [OF ok] by blast
    moreover have "send sent ?m = Inr ()" using assms(2) by blast
    ultimately show ?thesis using True by (simp add: mc Let_def Reset_def)
  next
    case False
    obtain msg' sent' where
      "children tx send i items ?m sent = (Inr msg', sent')"
      "concat (map Children sent') @ Children msg' =
         concat (map Children sent) @ Children ?m @ map (child tx i) items"
      using Cons.IH [OF ok] by blast
    then show ?thesis using False by (simp add: mc Let_def)
  qed
qed

text \<open>Every message the loop sends is full: it holds one child more than the threshold.\<close>

lemma children_full:
  assumes "length (Children msg) \<le> maxBatch" and "\<forall>m\<in>set sent. length (Children m) = Suc maxBatch"
  shows "(\<forall>m\<in>set (snd (children tx send i items msg sent)). length (Children m) = Suc maxBatch) \<and>
         (\<forall>msg'. fst (children tx send i items msg sent) = Inr msg' \<longrightarrow>
            length (Children msg') \<le> maxBatch)"
  using assms
proof (induction items arbitrary: msg sent)
  case Nil
  then show ?case by simp
next
  case (Cons item items)
  show ?case
  proof (cases "make_child tx i item")
    case (Inl e)
    then show ?thesis using Cons.prems by simp
  next
    case (Inr de)
    let ?m = "msg\<lparr>Children := Children msg @ [de]\<rparr>"
    show ?thesis
    proof (cases "length (Children ?m) > maxBatch")
      case True
      then have f: "length (Children ?m) = Suc maxBatch" using Cons.prems(1) by simp
      have s: "\<forall>m\<in>set (sent @ [?m]). length (Children m) = Suc maxBatch"
        using f Cons.prems(2) by simp
      have r: "length (Children Reset) \<le> maxBatch" by (simp add: Reset_def)
      show ?thesis
        using Cons.IH [OF r s] True Inr s
        by (cases "send sent ?m") (simp_all add: Let_def)
    next
      case False
      then have l: "length (Children ?m) \<le> maxBatch" by simp
      show ?thesis
        using Cons.IH [OF l Cons.prems(2)] False Inr by (simp add: Let_def)
    qed
  qed
qed


text \<open>The body of the closure on a path that resolves to the root or to a directory.\<close>

lemma sync_body_dir:
  assumes "walk tx (root_inode v) None q = Inr (i, d)" and "d = None \<or> Dir (the d) \<noteq> None"
  shows "sync_body tx send v q =
    (case children tx send i (Dirs_List tx i)
            \<lparr>Peers = Some (roster (tx_Peers tx) [0 \<mapsto> pubKey v]), Children = [], Error = None\<rparr> [] of
       (Inl err, sent) \<Rightarrow> (Inl err, sent)
     | (Inr msg, sent) \<Rightarrow>
         if length (Children msg) > 0 \<or> Peers msg \<noteq> None
         then (send sent msg, sent @ [msg]) else (Inr (), sent))"
proof -
  have u: "(case x of Inl err \<Rightarrow> (Inl err, y) | Inr _ \<Rightarrow> (Inr (), y)) = (x, y)"
    for x :: "error + unit" and y :: "VolumeSyncPullItem list"
    by (cases x) simp_all
  show ?thesis
    using assms
    by (auto simp: sync_body_def Let_def u split: prod.splits sum.splits)
qed

lemma sync_body_concat:
  assumes w: "walk tx (root_inode v) None q = Inr (i, d)" and dir: "d = None \<or> Dir (the d) \<noteq> None"
    and ok: "\<forall>item\<in>set (Dirs_List tx i). \<not> isl (make_child tx i item)"
    and acc: "\<forall>h m. send h m = Inr ()"
  shows "fst (sync_body tx send v q) = Inr () \<and>
         concat (map Children (snd (sync_body tx send v q))) = map (child tx i) (Dirs_List tx i)"
proof -
  let ?m0 = "\<lparr>Peers = Some (roster (tx_Peers tx) [0 \<mapsto> pubKey v]), Children = [], Error = None\<rparr>"
  obtain msg' sent' where c: "children tx send i (Dirs_List tx i) ?m0 [] = (Inr msg', sent')"
    and cc: "concat (map Children sent') @ Children msg' = map (child tx i) (Dirs_List tx i)"
    using children_concat [OF ok acc, of ?m0 "[]"] by auto
  have a: "send sent' msg' = Inr ()" using acc by blast
  show ?thesis
    using cc by (auto simp: sync_body_dir [OF w dir] c a)
qed

lemma sync_body_full:
  assumes w: "walk tx (root_inode v) None q = Inr (i, d)" and dir: "d = None \<or> Dir (the d) \<noteq> None"
  shows "(\<forall>m\<in>set (butlast (snd (sync_body tx send v q))). length (Children m) = Suc maxBatch) \<and>
         (\<forall>m\<in>set (snd (sync_body tx send v q)). length (Children m) \<le> Suc maxBatch)"
proof -
  let ?m0 = "\<lparr>Peers = Some (roster (tx_Peers tx) [0 \<mapsto> pubKey v]), Children = [], Error = None\<rparr>"
  obtain r sent' where c: "children tx send i (Dirs_List tx i) ?m0 [] = (r, sent')"
    by (cases "children tx send i (Dirs_List tx i) ?m0 []")
  have f: "(\<forall>m\<in>set sent'. length (Children m) = Suc maxBatch) \<and>
           (\<forall>msg'. r = Inr msg' \<longrightarrow> length (Children msg') \<le> maxBatch)"
    using children_full [of ?m0 "[]" tx send i "Dirs_List tx i"] c by simp
  show ?thesis
  proof (cases r)
    case (Inl e)
    then show ?thesis
      using f by (auto simp: sync_body_dir [OF w dir] c dest: in_set_butlastD)
  next
    case (Inr msg')
    then show ?thesis
      using f by (auto simp: sync_body_dir [OF w dir] c dest: in_set_butlastD)
  qed
qed

lemma sync_body_2500:
  assumes w: "walk tx (root_inode v) None q = Inr (i, d)" and dir: "d = None \<or> Dir (the d) \<noteq> None"
    and ok: "\<forall>item\<in>set (Dirs_List tx i). \<not> isl (make_child tx i item)"
    and acc: "\<forall>h m. send h m = Inr ()"
    and len: "length (Dirs_List tx i) = 2500"
  shows "map (\<lambda>m. length (Children m)) (snd (sync_body tx send v q)) = [1001, 1001, 498]"
proof -
  let ?m0 = "\<lparr>Peers = Some (roster (tx_Peers tx) [0 \<mapsto> pubKey v]), Children = [], Error = None\<rparr>"
  let ?items = "Dirs_List tx i"
  let ?a = "take 1001 ?items" and ?b = "take 1001 (drop 1001 ?items)" and ?c = "drop 2002 ?items"
  let ?m1 = "?m0\<lparr>Children := Children ?m0 @ map (child tx i) ?a\<rparr>"
  let ?m2 = "Reset\<lparr>Children := Children Reset @ map (child tx i) ?b\<rparr>"
  let ?m3 = "Reset\<lparr>Children := Children Reset @ map (child tx i) ?c\<rparr>"
  have split: "?items = ?a @ ?b @ ?c"
    by (metis append_take_drop_id drop_drop numeral_Bit0)
  have oka: "\<forall>item\<in>set ?a. \<not> isl (make_child tx i item)"
    and okb: "\<forall>item\<in>set ?b. \<not> isl (make_child tx i item)"
    and okc: "\<forall>item\<in>set ?c. \<not> isl (make_child tx i item)"
    using ok by (auto dest: in_set_takeD in_set_dropD)
  have la: "length ?a = 1001" and lb: "length ?b = 1001" and lc: "length ?c = 498"
    using len by simp_all
  have 1: "children tx send i (?a @ ?b @ ?c) ?m0 [] = children tx send i (?b @ ?c) Reset ([] @ [?m1])"
    using oka la acc by (intro children_flush) (auto simp: maxBatch_def)
  have 2: "children tx send i (?b @ ?c) Reset [?m1] = children tx send i ?c Reset ([?m1] @ [?m2])"
    using okb lb acc by (intro children_flush) (auto simp: maxBatch_def Reset_def)
  have 3: "children tx send i ?c Reset [?m1, ?m2] = (Inr ?m3, [?m1, ?m2])"
    using okc lc by (intro children_fill) (auto simp: maxBatch_def Reset_def)
  have c: "children tx send i ?items ?m0 [] = (Inr ?m3, [?m1, ?m2])"
    using 1 2 3 split by simp
  have a: "send [?m1, ?m2] ?m3 = Inr ()" using acc by blast
  show ?thesis
    using la lb lc by (simp add: sync_body_dir [OF w dir] c a Reset_def)
qed


text \<open>
  C2, as the code has it. Let the path resolve to the root or to a directory whose
  children all convert, let the store not fail and the sink accept every message. Then
  \<open>SyncSend\<close> succeeds; the children of the messages it delivers, put end to end, are
  the children of the directory in the order of the cursor; every message but the last
  holds exactly 1001 children, one more than the threshold \<open>maxBatch = 1000\<close>, because
  a message is flushed when its length exceeds the threshold; no message holds more; and
  for a directory of 2500 children the sink is called three times, with 1001, 1001 and
  498 children.
\<close>

theorem SyncSend_batches:
  assumes "resolve (store s) (root_inode (volume s)) None (segments p) = Inr (i, d)"
    and "d = None \<or> Dir (the d) \<noteq> None"
    and "\<forall>item\<in>set (Dirs_List (store s) i). \<not> isl (make_child (store s) i item)"
    and "\<forall>h m. send h m = Inr ()"
  shows "fst (SyncSend NoFault NoFault send p s) = Inr () \<and>
         concat (map Children (delivered s (snd (SyncSend NoFault NoFault send p s)))) =
           map (child (store s) i) (Dirs_List (store s) i) \<and>
         (\<forall>m\<in>set (butlast (delivered s (snd (SyncSend NoFault NoFault send p s)))).
            length (Children m) = Suc maxBatch) \<and>
         (\<forall>m\<in>set (delivered s (snd (SyncSend NoFault NoFault send p s))).
            length (Children m) \<le> Suc maxBatch) \<and>
         (length (Dirs_List (store s) i) = 2500 \<longrightarrow>
            map (\<lambda>m. length (Children m)) (delivered s (snd (SyncSend NoFault NoFault send p s))) =
              [1001, 1001, 498])"
proof -
  have w: "walk (store s) (root_inode (volume s)) None (cleaned p) = Inr (i, d)"
    using assms(1) by (simp add: walk_refines)
  show ?thesis
    using sync_body_concat [OF w assms(2,3,4)] sync_body_full [OF w assms(2), of send]
      sync_body_2500 [OF w assms(2,3,4)]
    by (simp add: SyncSend_NoFault)
qed

lemma sysBig_facts:
  "resolve (store sysBig) (root_inode (volume sysBig)) None (segments []) = Inr (1, None)"
  "\<forall>item\<in>set (Dirs_List (store sysBig) 1). \<not> isl (make_child (store sysBig) 1 item)"
  "length (Dirs_List (store sysBig) 1) = 2500"
  "\<forall>h m. accept h m = Inr ()"
  by (simp_all add: segments_def sysBig_def dbBig_def InodeRoot_def make_child_def item_of_def
      big_def accept_def)

text \<open>
  C2 as stated fails: for the directory of 2500 children of \<open>dbBig\<close> the three messages
  hold 1001, 1001 and 498 children, not 1000, 1000 and 500.
\<close>

theorem SyncSend_batches_of_1001:
  "length (Dirs_List (store sysBig) (root_inode (volume sysBig))) = 2500 \<and>
   map (\<lambda>m. length (Children m))
     (delivered sysBig (snd (SyncSend NoFault NoFault accept [] sysBig))) = [1001, 1001, 498] \<and>
   map (\<lambda>m. length (Children m))
     (delivered sysBig (snd (SyncSend NoFault NoFault accept [] sysBig))) \<noteq> [1000, 1000, 500]"
proof -
  have w: "walk (store sysBig) (root_inode (volume sysBig)) None (cleaned []) = Inr (1, None)"
    using sysBig_facts(1) by (simp add: walk_refines)
  have r: "root_inode (volume sysBig) = 1" by (simp add: sysBig_def InodeRoot_def)
  have "map (\<lambda>m. length (Children m))
     (delivered sysBig (snd (SyncSend NoFault NoFault accept [] sysBig))) = [1001, 1001, 498]"
    using sync_body_2500 [OF w _ sysBig_facts(2,4,3)] by (simp add: SyncSend_NoFault)
  then show ?thesis using sysBig_facts(3) r by simp
qed

theorem SyncSend_batches_witness:
  "resolve (store sysBig) (root_inode (volume sysBig)) None (segments []) = Inr (1, None) \<and>
   length (Dirs_List (store sysBig) 1) = 2500 \<and>
   fst (SyncSend NoFault NoFault accept [] sysBig) = Inr () \<and>
   length (delivered sysBig (snd (SyncSend NoFault NoFault accept [] sysBig))) = 3 \<and>
   map (\<lambda>m. length (Children m))
     (delivered sysBig (snd (SyncSend NoFault NoFault accept [] sysBig))) = [1001, 1001, 498] \<and>
   concat (map Children (delivered sysBig (snd (SyncSend NoFault NoFault accept [] sysBig)))) =
     map (child (store sysBig) 1) (Dirs_List (store sysBig) 1)"
proof -
  note t = SyncSend_batches [of sysBig "[]" 1 None accept, OF sysBig_facts(1) _ sysBig_facts(2,4)]
  have m: "map (\<lambda>m. length (Children m))
     (delivered sysBig (snd (SyncSend NoFault NoFault accept [] sysBig))) = [1001, 1001, 498]"
    using t sysBig_facts(3) by simp
  have l: "length (delivered sysBig (snd (SyncSend NoFault NoFault accept [] sysBig))) = 3"
    using arg_cong [OF m, of length] by simp
  show ?thesis using t m l sysBig_facts(1,3) by simp
qed

section \<open>Creating a volume: properties\<close>

lemma id_neq: "id0 \<noteq> id1"
  by (simp add: id0_def id1_def)

text \<open>
  On a new name \<open>Create\<close> draws an id, draws again when the id is taken, writes the
  name and makes the four state buckets.
\<close>

lemma Create_retry_example:
  "\<exists>b'. Create [Inr id0, Inr id1] add0 ''music'' ''/srv/music'' ''secret'' vols0 =
            Some (Inr \<lparr>vol_id = id1\<rparr>, b') \<and>
         names b' ''music'' = Some id1 \<and> names b' ''photos'' = Some id0 \<and>
         dom (the (volumes b' id1)) =
           {volumeStateDir, volumeStateInode, volumeStateSnap, volumeStateStorage}"
  using id_neq
  by (auto simp: Create_def vols0_def CreateBucket_def Create_fill_def Put_def add0_def Let_def
      volumeStateDir_def volumeStateInode_def volumeStateSnap_def volumeStateStorage_def
      id0_def id1_def)

text \<open>
  C7. \<open>Create\<close> with the empty name returns \<open>ErrVolNameInvalid\<close>, and \<open>Create\<close> with a
  name that the name bucket already maps to an id returns \<open>ErrVolNameExist\<close>; in both
  cases it returns without drawing an id and the store it returns is the store it was
  given.
\<close>

theorem Create_rejects_without_mutation:
  "Create rands add [] storage sharingKey b = Some (Inl ErrVolNameInvalid, b) \<and>
   (name \<noteq> [] \<and> names b name \<noteq> None \<longrightarrow>
      Create rands add name storage sharingKey b = Some (Inl ErrVolNameExist, b))"
  by (simp add: Create_def)

theorem Create_rejects_witness:
  "names vols0 ''photos'' = Some id0 \<and>
   Create [Inr id1] add0 ''photos'' ''/srv/photos'' ''secret'' vols0 =
     Some (Inl ErrVolNameExist, vols0) \<and>
   Create [Inr id1] add0 [] ''/srv/photos'' ''secret'' vols0 =
     Some (Inl ErrVolNameInvalid, vols0)"
proof -
  have n: "names vols0 ''photos'' = Some id0" by (simp add: vols0_def)
  have e: "''photos'' \<noteq> [] \<and> names vols0 ''photos'' \<noteq> None" using n by simp
  show ?thesis
    using Create_rejects_without_mutation [of "[Inr id1]" add0 "''/srv/photos''" "''secret''" vols0 "''photos''"] n e
    by simp
qed

end
